theory Spec2Isabelle
  imports Main "HOL-Library.Word" "HOL-Library.Sublist" "HOL-Library.Multiset"
begin

section \<open>JavaScript strings and the host platform\<close>

text \<open>
  A JavaScript string is a sequence of UTF-16 code units; \<open>length\<close>, \<open>slice\<close>,
  \<open>includes\<close> and \<open>startsWith\<close> all count and compare code units. String literals of
  the source are ASCII and are written through \<open>js\<close>.
\<close>

type_synonym jschar = "16 word"
type_synonym jsstring = "jschar list"

definition js :: "string \<Rightarrow> jsstring" where
  "js s = map of_char s"

definition NUL :: jschar where "NUL = 0"
definition slash :: jschar where "slash = 0x2F"
definition backslash :: jschar where "backslash = 0x5C"
definition dot :: jschar where "dot = 0x2E"

text \<open>
  What the scripts take from the platform they run on, and what is no code of this
  repository: the path separator (\<open>path.sep\<close>: a slash on POSIX, a backslash on Windows), the
  Unicode case mapping behind \<open>String.prototype.toLowerCase\<close> and the collation behind
  \<open>String.prototype.localeCompare\<close> (chosen by the host's locale).
\<close>

datatype os = Posix | Win32

fun sep :: "os \<Rightarrow> jschar" where
  "sep Posix = slash"
| "sep Win32 = backslash"

record host =
  platform :: os
  toLowerCase :: "jsstring \<Rightarrow> jsstring"
  localeCompare :: "jsstring \<Rightarrow> jsstring \<Rightarrow> int"

text \<open>\<open>s.split(c)\<close> for a one-unit separator and \<open>parts.join(d)\<close>.\<close>

fun split :: "jschar \<Rightarrow> jsstring \<Rightarrow> jsstring list" where
  "split c [] = [[]]"
| "split c (x # xs) =
     (if x = c then [] # split c xs
      else (case split c xs of [] \<Rightarrow> [[x]] | p # ps \<Rightarrow> (x # p) # ps))"

fun join :: "jsstring \<Rightarrow> jsstring list \<Rightarrow> jsstring" where
  "join d [] = []"
| "join d [p] = p"
| "join d (p # q # ps) = p @ d @ join d (q # ps)"

definition startsWith :: "jsstring \<Rightarrow> jsstring \<Rightarrow> bool" where
  "startsWith s p = prefix p s"

text \<open>\<open>s.includes(q)\<close>: \<open>q\<close> occurs in \<open>s\<close> as a contiguous run of code units.\<close>

fun str_includes :: "jsstring \<Rightarrow> jsstring \<Rightarrow> bool" where
  "str_includes [] q = (q = [])"
| "str_includes (x # xs) q = (prefix q (x # xs) \<or> str_includes xs q)"

section \<open>The snapshot generator (scripts/generate-project-context.js)\<close>

definition IGNORED_DIRS :: "jsstring set" where
  "IGNORED_DIRS = {js ''.git'', js ''node_modules'', js ''build'', js ''coverage'',
     js ''.vscode'', js ''.idea''}"

definition INCLUDED_EXTENSIONS :: "jsstring set" where
  "INCLUDED_EXTENSIONS = {js ''.js'', js ''.jsx'', js ''.ts'', js ''.tsx'', js ''.json'',
     js ''.css'', js ''.md'', js ''.txt'', js ''.html''}"

definition EXCLUDED_FILES :: "jsstring set" where
  "EXCLUDED_FILES = {js ''.env.local'', js ''.env'', js ''package-lock.json''}"

definition MAX_FILES :: nat where "MAX_FILES = 120"
definition MAX_CHARS_PER_FILE :: int where "MAX_CHARS_PER_FILE = 12000"
definition MAX_TOTAL_CHARS :: int where "MAX_TOTAL_CHARS = 500000"

text \<open>The marker of line 109: two line feeds and the comment, 25 code units.\<close>

definition truncation_marker :: jsstring where
  "truncation_marker = [0x0A, 0x0A] @ js ''/* content truncated */''"

definition toPosixPath :: "host \<Rightarrow> jsstring \<Rightarrow> jsstring" where
  "toPosixPath H filePath = join [slash] (split (sep (platform H)) filePath)"

definition isBinaryLike :: "jsstring \<Rightarrow> bool" where
  "isBinaryLike content = str_includes content [NUL]"

text \<open>
  \<open>path.basename\<close> and \<open>path.extname\<close> of Node, for a path that does not end in a
  separator (a directory entry's name, or the normalised relative path of a file): the
  last component is what follows the last \<open>/\<close>; its extension starts at its last dot,
  and is empty when there is no dot, when that dot opens the component, or when the
  component is \<open>..\<close>.
\<close>

definition basename :: "jsstring \<Rightarrow> jsstring" where
  "basename p = rev (takeWhile (\<lambda>c. c \<noteq> slash) (rev p))"

definition extname :: "jsstring \<Rightarrow> jsstring" where
  "extname p =
     (let b = basename p in
      if dot \<notin> set b then []
      else let startDot = length b - 1 - length (takeWhile (\<lambda>c. c \<noteq> dot) (rev b)) in
        if startDot = 0 \<or> b = [dot, dot] then [] else drop startDot b)"

definition getMimeType :: "host \<Rightarrow> jsstring \<Rightarrow> jsstring" where
  "getMimeType H filePath =
     (let ext = toLowerCase H (extname filePath) in
      if ext = js ''.json'' then js ''application/json''
      else if ext = js ''.md'' then js ''text/markdown''
      else if ext = js ''.css'' then js ''text/css''
      else if ext = js ''.html'' then js ''text/html''
      else js ''text/plain'')"

text \<open>
  The project tree as \<open>fs.readdirSync(dir, {withFileTypes: true})\<close> shows it: a directory
  is the list of its entries in the order the call returns them, an entry is a directory
  (\<open>entry.isDirectory()\<close>) or a file with the string that
  \<open>fs.readFileSync(fullPath, "utf8")\<close> decodes from it.
\<close>

datatype entry = File jsstring jsstring | Dir jsstring "entry list"

text \<open>
  An element of \<open>files\<close>. \<open>fullPath\<close> is kept as the components below the project root;
  \<open>fileContent\<close> is what reading \<open>fullPath\<close> returns (the tree does not change between
  the walk and the read).
\<close>

record file_ref =
  fullPath :: "jsstring list"
  relativePath :: jsstring
  fileContent :: jsstring

function collectFiles :: "host \<Rightarrow> jsstring list \<Rightarrow> entry list \<Rightarrow> file_ref list \<Rightarrow> file_ref list" where
  "collectFiles H dirPath [] acc = acc"
| "collectFiles H dirPath (Dir name sub # entries) acc =
     (if name \<in> IGNORED_DIRS then collectFiles H dirPath entries acc
      else collectFiles H dirPath entries (collectFiles H (dirPath @ [name]) sub acc))"
| "collectFiles H dirPath (File name content # entries) acc =
     (let fullPath = dirPath @ [name];
          relativePath = join [sep (platform H)] fullPath;
          normalized = toPosixPath H relativePath
      in
        if toLowerCase H (extname name) \<notin> INCLUDED_EXTENSIONS then collectFiles H dirPath entries acc
        else if name \<in> EXCLUDED_FILES then collectFiles H dirPath entries acc
        else if startsWith normalized (js ''public/'') \<and> normalized \<noteq> js ''public/index.html''
          then collectFiles H dirPath entries acc
        else collectFiles H dirPath entries
          (acc @ [\<lparr>fullPath = fullPath, relativePath = normalized, fileContent = content\<rparr>]))"
  by pat_completeness auto
termination
  by (relation "measure (\<lambda>(H, dirPath, entries, acc). size_list size entries)") auto

text \<open>
  \<open>files.sort(cmp)\<close>: ECMAScript requires a stable sort and leaves the algorithm open;
  stable insertion is the model (for a consistent comparator every stable sort returns
  the same array).
\<close>

fun insert_sorted :: "('a \<Rightarrow> 'a \<Rightarrow> int) \<Rightarrow> 'a \<Rightarrow> 'a list \<Rightarrow> 'a list" where
  "insert_sorted cmp x [] = [x]"
| "insert_sorted cmp x (y # ys) =
     (if cmp x y \<le> 0 then x # y # ys else y # insert_sorted cmp x ys)"

definition array_sort :: "('a \<Rightarrow> 'a \<Rightarrow> int) \<Rightarrow> 'a list \<Rightarrow> 'a list" where
  "array_sort cmp xs = foldr (insert_sorted cmp) xs []"

record resource =
  uri :: jsstring
  path :: jsstring
  name :: jsstring
  mimeType :: jsstring
  "text" :: jsstring
  truncated :: bool

text \<open>
  The loop of \<open>loadResources\<close> (lines 96 to 122) over the sorted files, with the array
  \<open>resources\<close> and the counter \<open>totalChars\<close> as they stand before the iteration. \<open>break\<close>
  returns the array, \<open>continue\<close> goes on with the rest.
\<close>

fun load_loop :: "host \<Rightarrow> file_ref list \<Rightarrow> resource list \<Rightarrow> int \<Rightarrow> resource list" where
  "load_loop H [] resources totalChars = resources"
| "load_loop H (file # files) resources totalChars =
     (if length resources \<ge> MAX_FILES then resources
      else if totalChars \<ge> MAX_TOTAL_CHARS then resources
      else
        let rawContent = fileContent file in
        if isBinaryLike rawContent then load_loop H files resources totalChars
        else
          let availableChars = max 0 (MAX_TOTAL_CHARS - totalChars);
              cap = min MAX_CHARS_PER_FILE availableChars
          in
            if cap = 0 then resources
            else
              let isTruncated = int (length rawContent) > cap;
                  text = (if isTruncated then take (nat cap) rawContent @ truncation_marker
                          else rawContent)
              in load_loop H files
                   (resources @
                     [\<lparr>uri = js ''file:///'' @ relativePath file,
                       path = relativePath file,
                       name = basename (relativePath file),
                       mimeType = getMimeType H (relativePath file),
                       text = text,
                       truncated = isTruncated\<rparr>])
                   (totalChars + int (length text)))"

definition loadResources :: "host \<Rightarrow> entry list \<Rightarrow> resource list" where
  "loadResources H root =
     (let files = collectFiles H [] root [];
          files = array_sort (\<lambda>a b. localeCompare H (relativePath a) (relativePath b)) files
      in load_loop H files [] 0)"

text \<open>
  The artifact \<open>{generatedAt, summary, resources}\<close>. The generator writes a timestamp;
  the fallback of the shim has \<open>generatedAt: null\<close>.
\<close>

record project_context =
  generatedAt :: "jsstring option"
  summary :: jsstring
  resources :: "resource list"

text \<open>A non-negative integer in a template literal: its decimal digits.\<close>

fun decimal :: "nat \<Rightarrow> jsstring" where
  "decimal n = (if n < 10 then [0x30 + of_nat n]
                else decimal (n div 10) @ [0x30 + of_nat (n mod 10)])"

definition buildSummary :: "resource list \<Rightarrow> jsstring" where
  "buildSummary rs =
     (let sourceFiles = length (filter (\<lambda>file. startsWith (path file) (js ''src/'')) rs);
          configFiles = length (filter (\<lambda>file. \<not> startsWith (path file) (js ''src/'')) rs)
      in join (js '' '')
          [js ''This is a React tic-tac-toe project with a Tambo chat interface.'',
           js ''Context contains '' @ decimal (length rs) @ js '' files ('' @
             decimal sourceFiles @ js '' source, '' @ decimal configFiles @
             js '' config/docs).'',
           js ''Use listed resources to answer project-specific questions and include file paths when possible.''])"

text \<open>
  How the volume of the project resolves a name: two names denote the same entry of
  a directory when the case folding of the volume maps them to the same string. The
  folding is the identity on a case-sensitive volume (ext4, case-sensitive APFS); on a
  case-insensitive one (NTFS, default APFS, HFS+) it is the volume's own table, which
  is no code of this repository and is a parameter here.

  \<open>fs.mkdirSync(dir, {recursive: true})\<close> and \<open>fs.writeFileSync(file, data)\<close> act on the
  tree, for a path given by its components below the project root. A component stands
  for the first entry of the directory that the volume takes for it, whatever the case
  of the name that entry carries; an entry that is overwritten keeps its name.
  Creating a directory where a file is, or writing a file where a directory is,
  throws. The tree has no links: every entry is a file or a directory of its own, so a
  write changes the one entry it resolves to.
\<close>

type_synonym folding = "jsstring \<Rightarrow> jsstring"

fun entry_name :: "entry \<Rightarrow> jsstring" where
  "entry_name (File n c) = n"
| "entry_name (Dir n sub) = n"

datatype fs_error = EEXIST | EISDIR | ENOENT | ENOTDIR

fun mkdirSync :: "folding \<Rightarrow> jsstring list \<Rightarrow> entry list \<Rightarrow> fs_error + entry list" where
  "mkdirSync vol [] es = Inr es"
| "mkdirSync vol (d # ds) [] =
     (case mkdirSync vol ds [] of Inl e \<Rightarrow> Inl e | Inr sub \<Rightarrow> Inr [Dir d sub])"
| "mkdirSync vol (d # ds) (File m c # es) =
     (if vol m = vol d then Inl EEXIST
      else (case mkdirSync vol (d # ds) es of Inl e \<Rightarrow> Inl e
            | Inr es' \<Rightarrow> Inr (File m c # es')))"
| "mkdirSync vol (d # ds) (Dir m sub # es) =
     (if vol m = vol d
      then (case mkdirSync vol ds sub of Inl e \<Rightarrow> Inl e | Inr sub' \<Rightarrow> Inr (Dir m sub' # es))
      else (case mkdirSync vol (d # ds) es of Inl e \<Rightarrow> Inl e
            | Inr es' \<Rightarrow> Inr (Dir m sub # es')))"

fun writeFileSync ::
    "folding \<Rightarrow> jsstring list \<Rightarrow> jsstring \<Rightarrow> entry list \<Rightarrow> fs_error + entry list" where
  "writeFileSync vol [] data es = Inl EISDIR"
| "writeFileSync vol [n] data [] = Inr [File n data]"
| "writeFileSync vol (d # n # ns) data [] = Inl ENOENT"
| "writeFileSync vol [n] data (File m c # es) =
     (if vol m = vol n then Inr (File m data # es)
      else (case writeFileSync vol [n] data es of Inl e \<Rightarrow> Inl e
            | Inr es' \<Rightarrow> Inr (File m c # es')))"
| "writeFileSync vol [n] data (Dir m sub # es) =
     (if vol m = vol n then Inl EISDIR
      else (case writeFileSync vol [n] data es of Inl e \<Rightarrow> Inl e
            | Inr es' \<Rightarrow> Inr (Dir m sub # es')))"
| "writeFileSync vol (d # n # ns) data (File m c # es) =
     (if vol m = vol d then Inl ENOTDIR
      else (case writeFileSync vol (d # n # ns) data es of Inl e \<Rightarrow> Inl e
            | Inr es' \<Rightarrow> Inr (File m c # es')))"
| "writeFileSync vol (d # n # ns) data (Dir m sub # es) =
     (if vol m = vol d
      then (case writeFileSync vol (n # ns) data sub of Inl e \<Rightarrow> Inl e
            | Inr sub' \<Rightarrow> Inr (Dir m sub' # es))
      else (case writeFileSync vol (d # n # ns) data es of Inl e \<Rightarrow> Inl e
            | Inr es' \<Rightarrow> Inr (Dir m sub # es')))"

text \<open>\<open>OUTPUT_FILE\<close>, as its components below \<open>PROJECT_ROOT\<close>.\<close>

definition OUTPUT_FILE :: "jsstring list" where
  "OUTPUT_FILE = [js ''public'', js ''project-context.json'']"

text \<open>
  \<open>main\<close> on a project tree that lies on a volume with the folding \<open>vol\<close>. \<open>now\<close> is
  \<open>new Date().toISOString()\<close> and \<open>stringify\<close> is \<open>JSON.stringify(payload, null, 2)\<close>, both
  of the runtime. The result is the tree after the run, the payload and the line
  printed, or the error that aborts the run.
\<close>

definition main :: "host \<Rightarrow> folding \<Rightarrow> jsstring \<Rightarrow> (project_context \<Rightarrow> jsstring) \<Rightarrow>
    entry list \<Rightarrow> fs_error + (entry list \<times> project_context \<times> jsstring)" where
  "main H vol now stringify root =
     (let rs = loadResources H root;
          payload = \<lparr>generatedAt = Some now, summary = buildSummary rs, resources = rs\<rparr>
      in case mkdirSync vol (butlast OUTPUT_FILE) root of
           Inl e \<Rightarrow> Inl e
         | Inr root1 \<Rightarrow>
            (case writeFileSync vol OUTPUT_FILE (stringify payload) root1 of
               Inl e \<Rightarrow> Inl e
             | Inr root2 \<Rightarrow>
                Inr (root2, payload,
                  js ''Generated '' @ join [sep (platform H)] OUTPUT_FILE @ js '' with '' @
                  decimal (length rs) @ js '' resources.'')))"

section \<open>The resource shim (src/index.js)\<close>

text \<open>
  A promise is modelled by the state it settles in. \<open>p.then(f)\<close> runs \<open>f\<close> on the value
  of a fulfilled \<open>p\<close> and settles as what \<open>f\<close> returns (a \<open>throw\<close> in \<open>f\<close> is a rejected
  result); \<open>p.catch(g)\<close> does the same with the reason of a rejected \<open>p\<close>. An
  \<open>await p\<close> inside an \<open>async\<close> function is \<open>p.then\<close> of the rest of its body.
\<close>

datatype jserror = Error jsstring | TypeError | SyntaxError

datatype 'a promise = Fulfilled 'a | Rejected jserror

fun then_p :: "'a promise \<Rightarrow> ('a \<Rightarrow> 'b promise) \<Rightarrow> 'b promise" where
  "then_p (Fulfilled v) f = f v"
| "then_p (Rejected e) f = Rejected e"

fun catch_p :: "'a promise \<Rightarrow> (jserror \<Rightarrow> 'a promise) \<Rightarrow> 'a promise" where
  "catch_p (Fulfilled v) g = Fulfilled v"
| "catch_p (Rejected e) g = g e"

text \<open>
  What \<open>fetch\<close> resolves to: the \<open>ok\<close> flag and what \<open>response.json()\<close> settles as (the
  parsed artifact, or a rejection when the body is no JSON).
\<close>

record response =
  ok :: bool
  json :: "project_context promise"

text \<open>
  The module state: the variable \<open>projectContextPromise\<close> (\<open>undefined\<close> is \<open>None\<close>) and,
  as a ghost counter, the number of calls of \<open>fetch\<close> made so far. The network is the
  function that gives the outcome of the i-th call of \<open>fetch\<close>.
\<close>

record shim_state =
  projectContextPromise :: "project_context promise option"
  fetches :: nat

type_synonym network = "nat \<Rightarrow> response promise"

definition initial_state :: shim_state where
  "initial_state = \<lparr>projectContextPromise = None, fetches = 0\<rparr>"

definition getFallbackProjectContext :: project_context where
  "getFallbackProjectContext =
     \<lparr>generatedAt = None,
      summary = js ''No local project context is available.'',
      resources = []\<rparr>"

definition loadProjectContext :: "network \<Rightarrow> shim_state \<Rightarrow> project_context promise \<times> shim_state" where
  "loadProjectContext net st =
     (case projectContextPromise st of
        None \<Rightarrow>
          (let p = catch_p
                (then_p (net (fetches st))
                   (\<lambda>response. if \<not> ok response
                      then Rejected (Error (js ''project context not found''))
                      else json response))
                (\<lambda>_. Fulfilled getFallbackProjectContext)
           in (p, st\<lparr>projectContextPromise := Some p, fetches := fetches st + 1\<rparr>))
      | Some p \<Rightarrow> (p, st))"

text \<open>
  \<open>String.prototype.trim\<close>: the white space and line terminator code units of
  ECMAScript are removed at both ends.
\<close>

definition is_white_space :: "jschar \<Rightarrow> bool" where
  "is_white_space c \<longleftrightarrow>
     c \<in> {0x09, 0x0A, 0x0B, 0x0C, 0x0D, 0x20, 0xA0, 0x1680, 0x2028, 0x2029, 0x202F,
          0x205F, 0x3000, 0xFEFF} \<or> (0x2000 \<le> c \<and> c \<le> 0x200A)"

definition trim :: "jsstring \<Rightarrow> jsstring" where
  "trim s = rev (dropWhile is_white_space (rev (dropWhile is_white_space s)))"

text \<open>
  An element of the listing, \<open>{uri, name, description, mimeType}\<close>, and a content item,
  \<open>{uri, mimeType, text}\<close>; their fields carry a prefix to keep them apart from those of
  a resource.
\<close>

record listing =
  l_uri :: jsstring
  l_name :: jsstring
  l_description :: jsstring
  l_mimeType :: jsstring

record content_item =
  c_uri :: jsstring
  c_mimeType :: jsstring
  c_text :: jsstring

record envelope =
  contents :: "content_item list"

text \<open>\<open>search || ""\<close> for a string or a missing argument.\<close>

definition or_empty :: "jsstring option \<Rightarrow> jsstring" where
  "or_empty search = (case search of None \<Rightarrow> [] | Some s \<Rightarrow> s)"

definition listProjectResources ::
    "host \<Rightarrow> network \<Rightarrow> jsstring option \<Rightarrow> shim_state \<Rightarrow> listing list promise \<times> shim_state" where
  "listProjectResources H net search st =
     (let (p, st') = loadProjectContext net st in
      (then_p p (\<lambda>context.
         let query = trim (toLowerCase H (or_empty search)) in
         Fulfilled
           (map (\<lambda>resource.
                  \<lparr>l_uri = uri resource,
                   l_name = name resource,
                   l_description = js ''Project file '' @ path resource,
                   l_mimeType = mimeType resource\<rparr>)
              (filter (\<lambda>resource.
                  if query = [] then True
                  else str_includes (toLowerCase H (uri resource)) query \<or>
                       str_includes (toLowerCase H (path resource)) query \<or>
                       str_includes (toLowerCase H (name resource)) query)
                 (resources context)))),
       st'))"

definition getProjectResource ::
    "network \<Rightarrow> jsstring \<Rightarrow> shim_state \<Rightarrow> envelope promise \<times> shim_state" where
  "getProjectResource net u st =
     (let (p, st') = loadProjectContext net st in
      (then_p p (\<lambda>context.
         case find (\<lambda>item. uri item = u) (resources context) of
           None \<Rightarrow>
             Fulfilled \<lparr>contents =
               [\<lparr>c_uri = u,
                 c_mimeType = js ''text/plain'',
                 c_text = js ''Resource not found for uri: '' @ u\<rparr>]\<rparr>
         | Some resource \<Rightarrow>
             Fulfilled \<lparr>contents =
               [\<lparr>c_uri = uri resource,
                 c_mimeType = (if mimeType resource = [] then js ''text/plain''
                               else mimeType resource),
                 c_text = text resource\<rparr>]\<rparr>),
       st'))"

text \<open>The context helper \<open>project_summary\<close>.\<close>

definition project_summary :: "network \<Rightarrow> shim_state \<Rightarrow> jsstring promise \<times> shim_state" where
  "project_summary net st =
     (let (p, st') = loadProjectContext net st in
      (then_p p (\<lambda>context. Fulfilled (summary context)), st'))"

text \<open>
  A session is a sequence of calls of the four operations. The event loop runs each
  call up to its first \<open>await\<close> without interleaving, and \<open>loadProjectContext\<close> reads
  and assigns the variable before that point, so the calls act on the state one after
  the other. \<open>session\<close> lists the state after each call.
\<close>

datatype call = LoadContext | ListResources "jsstring option" | GetResource jsstring | GetSummary

fun perform :: "host \<Rightarrow> network \<Rightarrow> call \<Rightarrow> shim_state \<Rightarrow> shim_state" where
  "perform H net LoadContext st = snd (loadProjectContext net st)"
| "perform H net (ListResources search) st = snd (listProjectResources H net search st)"
| "perform H net (GetResource u) st = snd (getProjectResource net u st)"
| "perform H net GetSummary st = snd (project_summary net st)"

fun session :: "host \<Rightarrow> network \<Rightarrow> call list \<Rightarrow> shim_state \<Rightarrow> shim_state list" where
  "session H net [] st = []"
| "session H net (c # cs) st = perform H net c st # session H net cs (perform H net c st)"

section \<open>Notions used to state the properties\<close>

text \<open>
  The two values the body of the loop computes for a file when the counter is
  \<open>totalChars\<close>: the cap of line 104 and the record pushed at line 114.
\<close>

definition file_cap :: "int \<Rightarrow> int" where
  "file_cap totalChars = min MAX_CHARS_PER_FILE (max 0 (MAX_TOTAL_CHARS - totalChars))"

definition pushed :: "host \<Rightarrow> file_ref \<Rightarrow> int \<Rightarrow> resource" where
  "pushed H f totalChars =
     (let rawContent = fileContent f; cap = file_cap totalChars;
          isTruncated = int (length rawContent) > cap
      in \<lparr>uri = js ''file:///'' @ relativePath f,
          path = relativePath f,
          name = basename (relativePath f),
          mimeType = getMimeType H (relativePath f),
          text = (if isTruncated then take (nat cap) rawContent @ truncation_marker
                  else rawContent),
          truncated = isTruncated\<rparr>)"

text \<open>The sum of the lengths of the \<open>text\<close> fields of a snapshot.\<close>

definition total_text :: "resource list \<Rightarrow> int" where
  "total_text rs = sum_list (map (\<lambda>r. int (length (text r))) rs)"

text \<open>
  A host to run the generator on concrete trees: POSIX separators, the case mapping
  of the ASCII letters, and a collation that compares letters without regard to case
  first and puts the lower-case letter first among equals, as the collations of the
  locales do on ASCII letters.
\<close>

definition ascii_lower :: "jsstring \<Rightarrow> jsstring" where
  "ascii_lower s = map (\<lambda>c. if 0x41 \<le> c \<and> c \<le> 0x5A then c + 0x20 else c) s"

fun compare_units :: "nat list \<Rightarrow> nat list \<Rightarrow> int" where
  "compare_units [] [] = 0"
| "compare_units [] (y # ys) = -1"
| "compare_units (x # xs) [] = 1"
| "compare_units (x # xs) (y # ys) =
     (if x < y then -1 else if y < x then 1 else compare_units xs ys)"

definition primary_weight :: "jschar \<Rightarrow> nat" where
  "primary_weight c = unat (if 0x41 \<le> c \<and> c \<le> 0x5A then c + 0x20 else c)"

definition tertiary_weight :: "jschar \<Rightarrow> nat" where
  "tertiary_weight c = (if 0x41 \<le> c \<and> c \<le> 0x5A then 1 else 0)"

definition ascii_collate :: "jsstring \<Rightarrow> jsstring \<Rightarrow> int" where
  "ascii_collate a b =
     (let p = compare_units (map primary_weight a) (map primary_weight b) in
      if p \<noteq> 0 then p
      else compare_units (map tertiary_weight a) (map tertiary_weight b))"

definition posix_host :: host where
  "posix_host = \<lparr>platform = Posix, toLowerCase = ascii_lower, localeCompare = ascii_collate\<rparr>"

text \<open>A project of one file \<open>a.js\<close> of 12001 letters.\<close>

definition long_file_tree :: "entry list" where
  "long_file_tree = [File (js ''a.js'') (replicate 12001 0x61)]"

text \<open>
  Flat projects of files \<open>xy.js\<close>, one for each pair of letters, all with the same
  content, and the elements of \<open>files\<close> that the walk finds in them.
\<close>

definition grid_tree :: "jschar list \<Rightarrow> jschar list \<Rightarrow> jsstring \<Rightarrow> entry list" where
  "grid_tree xs ys content =
     concat (map (\<lambda>x. map (\<lambda>y. File ([x, y] @ js ''.js'') content) ys) xs)"

definition grid_refs :: "jschar list \<Rightarrow> jschar list \<Rightarrow> jsstring \<Rightarrow> file_ref list" where
  "grid_refs xs ys content =
     concat (map (\<lambda>x. map (\<lambda>y.
       \<lparr>fullPath = [[x, y] @ js ''.js''], relativePath = [x, y] @ js ''.js'',
        fileContent = content\<rparr>) ys) xs)"

text \<open>42 files of 12000 letters each: \<open>aa.js\<close> to \<open>fg.js\<close>.\<close>

definition full_files_tree :: "entry list" where
  "full_files_tree =
     grid_tree [0x61, 0x62, 0x63, 0x64, 0x65, 0x66] [0x61, 0x62, 0x63, 0x64, 0x65, 0x66, 0x67]
       (replicate 12000 0x61)"

text \<open>
  The case mapping of the host leaves a string of white space as it is (no white space
  code unit has a lower-case mapping in Unicode).
\<close>

definition case_map_keeps_white_space :: "host \<Rightarrow> bool" where
  "case_map_keeps_white_space H \<longleftrightarrow>
     (\<forall>s. (\<forall>c \<in> set s. is_white_space c) \<longrightarrow> toLowerCase H s = s)"

text \<open>
  \<open>listResources\<close> as section 4.2 of the specification words it: all resources for an
  empty or absent search text, else those whose \<open>uri\<close>, \<open>path\<close> or \<open>name\<close> contains the
  search text, compared without regard to case.
\<close>

definition spec_listResources :: "host \<Rightarrow> project_context \<Rightarrow> jsstring option \<Rightarrow> listing list" where
  "spec_listResources H ctx searchText =
     map (\<lambda>r. \<lparr>l_uri = uri r, l_name = name r,
                l_description = js ''Project file '' @ path r, l_mimeType = mimeType r\<rparr>)
       (if searchText = None \<or> searchText = Some [] then resources ctx
        else filter (\<lambda>r. sublist (toLowerCase H (the searchText)) (toLowerCase H (uri r)) \<or>
                         sublist (toLowerCase H (the searchText)) (toLowerCase H (path r)) \<or>
                         sublist (toLowerCase H (the searchText)) (toLowerCase H (name r)))
               (resources ctx))"

text \<open>A loaded artifact with one resource, and two networks: one serves it, one fails.\<close>

definition app_context :: project_context where
  "app_context =
     \<lparr>generatedAt = Some (js ''2026-01-01T00:00:00.000Z''),
      summary = js ''one file'',
      resources = [\<lparr>uri = js ''file:///src/App.js'', path = js ''src/App.js'',
        name = js ''App.js'', mimeType = js ''text/plain'', text = js ''export default 1'',
        truncated = False\<rparr>]\<rparr>"

definition app_network :: network where
  "app_network i = Fulfilled \<lparr>ok = True, json = Fulfilled app_context\<rparr>"

definition failing_network :: network where
  "failing_network i = Rejected TypeError"


text \<open>
  The files of the project outside the ignored directories, each with the components
  of its path below the project root and its content.
\<close>

function walk :: "jsstring list \<Rightarrow> entry list \<Rightarrow> (jsstring list \<times> jsstring) list" where
  "walk dirPath [] = []"
| "walk dirPath (File n c # es) = (dirPath @ [n], c) # walk dirPath es"
| "walk dirPath (Dir n sub # es) =
     (if n \<in> IGNORED_DIRS then [] else walk (dirPath @ [n]) sub) @ walk dirPath es"
  by pat_completeness auto
termination
  by (relation "measure (\<lambda>(dirPath, es). size_list size es)") auto

text \<open>
  The rules of section 4.1, step 2, on the components of a path: the extension of the
  file name is in the allow-list, the file name is not in the deny-list, and the file
  is not inside the directory \<open>public\<close> of the project root, \<open>public/index.html\<close> apart.
\<close>

definition under_public :: "jsstring list \<Rightarrow> bool" where
  "under_public p \<longleftrightarrow> length p > 1 \<and> hd p = js ''public''"

definition eligible :: "host \<Rightarrow> jsstring list \<Rightarrow> bool" where
  "eligible H p \<longleftrightarrow>
     toLowerCase H (extname (last p)) \<in> INCLUDED_EXTENSIONS \<and>
     last p \<notin> EXCLUDED_FILES \<and>
     (\<not> under_public p \<or> p = [js ''public'', js ''index.html''])"

text \<open>
  The files C3 speaks of: those that meet the rules and whose content has no NUL; and
  the set of their POSIX-style relative paths.
\<close>

definition expected_files :: "host \<Rightarrow> entry list \<Rightarrow> (jsstring list \<times> jsstring) list" where
  "expected_files H root = filter (\<lambda>(p, c). eligible H p \<and> NUL \<notin> set c) (walk [] root)"

definition expected_paths :: "host \<Rightarrow> entry list \<Rightarrow> jsstring set" where
  "expected_paths H root = (\<lambda>(p, c). join [slash] p) ` set (expected_files H root)"

text \<open>
  Names as a file system has them: no name of a file of the walk, or of a directory
  above it, contains a slash or the separator of the platform.
\<close>

definition legal_names :: "host \<Rightarrow> entry list \<Rightarrow> bool" where
  "legal_names H root \<longleftrightarrow>
     (\<forall>(p, c) \<in> set (walk [] root). \<forall>n \<in> set p. slash \<notin> set n \<and> sep (platform H) \<notin> set n)"

text \<open>
  The budgets leave room for all the expected files: they are at most \<open>MAX_FILES\<close>, and
  the most the loop can count for them, the cap of a file and a marker each, is within
  \<open>MAX_TOTAL_CHARS\<close>.
\<close>

definition within_budgets :: "host \<Rightarrow> entry list \<Rightarrow> bool" where
  "within_budgets H root \<longleftrightarrow>
     length (expected_files H root) \<le> MAX_FILES \<and>
     sum_list (map (\<lambda>(p, c). min (int (length c)) MAX_CHARS_PER_FILE +
         int (length truncation_marker)) (expected_files H root)) \<le> MAX_TOTAL_CHARS"

text \<open>
  What the walk of \<open>collectFiles\<close> does with a file of the tree: the three tests of lines
  76 to 78 and the element pushed at line 80.
\<close>

definition normalized_path :: "host \<Rightarrow> jsstring list \<Rightarrow> jsstring" where
  "normalized_path H p = toPosixPath H (join [sep (platform H)] p)"

definition code_keeps :: "host \<Rightarrow> jsstring list \<times> jsstring \<Rightarrow> bool" where
  "code_keeps H pc \<longleftrightarrow>
     toLowerCase H (extname (last (fst pc))) \<in> INCLUDED_EXTENSIONS \<and>
     last (fst pc) \<notin> EXCLUDED_FILES \<and>
     \<not> (startsWith (normalized_path H (fst pc)) (js ''public/'') \<and>
        normalized_path H (fst pc) \<noteq> js ''public/index.html'')"

definition to_ref :: "host \<Rightarrow> jsstring list \<times> jsstring \<Rightarrow> file_ref" where
  "to_ref H pc =
     \<lparr>fullPath = fst pc, relativePath = normalized_path H (fst pc), fileContent = snd pc\<rparr>"

text \<open>
  A comparator that \<open>Array.prototype.sort\<close> can sort by: any two strings are comparable
  and the order is transitive.
\<close>

definition consistent_comparator :: "(jsstring \<Rightarrow> jsstring \<Rightarrow> int) \<Rightarrow> bool" where
  "consistent_comparator cmp \<longleftrightarrow>
     (\<forall>a b. cmp a b \<le> 0 \<or> cmp b a \<le> 0) \<and>
     (\<forall>a b c. cmp a b \<le> 0 \<and> cmp b c \<le> 0 \<longrightarrow> cmp a c \<le> 0)"

text \<open>Ascending lexicographic order of the code units, the order of \<open><\<close> on strings.\<close>

definition lexicographically_sorted :: "jsstring list \<Rightarrow> bool" where
  "lexicographically_sorted ps =
     sorted_wrt (\<lambda>a b. compare_units (map unat a) (map unat b) \<le> 0) ps"

text \<open>121 files of one letter each, \<open>aa.js\<close> to \<open>kk.js\<close>, and a project of two files.\<close>

definition many_files_tree :: "entry list" where
  "many_files_tree =
     grid_tree [0x61, 0x62, 0x63, 0x64, 0x65, 0x66, 0x67, 0x68, 0x69, 0x6A, 0x6B]
       [0x61, 0x62, 0x63, 0x64, 0x65, 0x66, 0x67, 0x68, 0x69, 0x6A, 0x6B] (js ''x'')"

definition mixed_case_tree :: "entry list" where
  "mixed_case_tree = [File (js ''B.js'') (js ''b''), File (js ''a.js'') (js ''a'')]"

text \<open>
  A project with one file of each kind: documentation, source, a dependency, the
  public directory with the entry file and the artifact of an earlier run, a file with
  a NUL and a file of the deny-list.
\<close>

definition sample_tree :: "entry list" where
  "sample_tree =
     [Dir (js ''src'') [File (js ''App.js'') (js ''export default App'')],
      File (js ''README.md'') (js ''# tic-tac-toe''),
      Dir (js ''node_modules'') [Dir (js ''x'') [File (js ''index.js'') (js ''x'')]],
      Dir (js ''public'')
        [File (js ''index.html'') (js ''<html></html>''),
         File (js ''project-context.json'') (js ''{}'')],
      File (js ''logo.txt'') [0x50, NUL, 0x4E],
      File (js ''.env'') (js ''KEY=1'')]"

text \<open>
  A project with a directory \<open>Public\<close>, and the folding of a case-insensitive volume on
  ASCII names.
\<close>

definition capital_public_tree :: "entry list" where
  "capital_public_tree = [Dir (js ''Public'') [], File (js ''a.js'') (js ''a'')]"

definition ascii_folding :: folding where
  "ascii_folding = ascii_lower"

section \<open>Strings\<close>

lemma length_truncation_marker: "length truncation_marker = 25"
  by (simp add: truncation_marker_def js_def)

lemma isBinaryLike_iff: "isBinaryLike s \<longleftrightarrow> NUL \<in> set s"
  by (induction s) (auto simp: isBinaryLike_def)

section \<open>The loop of loadResources, case by case\<close>

lemma file_cap_pos: "totalChars < MAX_TOTAL_CHARS \<Longrightarrow> 0 < file_cap totalChars"
  by (simp add: file_cap_def MAX_CHARS_PER_FILE_def)

lemma file_cap_le_per_file: "file_cap t \<le> MAX_CHARS_PER_FILE"
  by (simp add: file_cap_def)

lemma file_cap_le_available: "t < MAX_TOTAL_CHARS \<Longrightarrow> file_cap t \<le> MAX_TOTAL_CHARS - t"
  by (simp add: file_cap_def)

lemma load_loop_break:
  "length rs \<ge> MAX_FILES \<or> totalChars \<ge> MAX_TOTAL_CHARS \<Longrightarrow>
   load_loop H (f # files) rs totalChars = rs"
  by auto

lemma load_loop_skip:
  "length rs < MAX_FILES \<Longrightarrow> totalChars < MAX_TOTAL_CHARS \<Longrightarrow>
   isBinaryLike (fileContent f) \<Longrightarrow>
   load_loop H (f # files) rs totalChars = load_loop H files rs totalChars"
  by simp

lemma load_loop_push:
  "length rs < MAX_FILES \<Longrightarrow> totalChars < MAX_TOTAL_CHARS \<Longrightarrow>
   \<not> isBinaryLike (fileContent f) \<Longrightarrow>
   load_loop H (f # files) rs totalChars =
     load_loop H files (rs @ [pushed H f totalChars])
       (totalChars + int (length (text (pushed H f totalChars))))"
  by (auto simp: pushed_def Let_def file_cap_def min_def MAX_CHARS_PER_FILE_def)

declare load_loop.simps(2) [simp del]

lemma load_loop_cases:
  obtains (break) "length rs \<ge> MAX_FILES \<or> totalChars \<ge> MAX_TOTAL_CHARS"
     "load_loop H (f # files) rs totalChars = rs"
  | (skip) "length rs < MAX_FILES" "totalChars < MAX_TOTAL_CHARS"
     "isBinaryLike (fileContent f)"
     "load_loop H (f # files) rs totalChars = load_loop H files rs totalChars"
  | (push) "length rs < MAX_FILES" "totalChars < MAX_TOTAL_CHARS"
     "\<not> isBinaryLike (fileContent f)"
     "load_loop H (f # files) rs totalChars =
        load_loop H files (rs @ [pushed H f totalChars])
          (totalChars + int (length (text (pushed H f totalChars))))"
  using load_loop_break[of rs totalChars H f files] load_loop_skip[of rs totalChars f H files]
    load_loop_push[of rs totalChars f H files]
  by (cases "length rs \<ge> MAX_FILES \<or> totalChars \<ge> MAX_TOTAL_CHARS";
      cases "isBinaryLike (fileContent f)") auto

lemma load_loop_elems:
  "r \<in> set (load_loop H files rs tot) \<Longrightarrow>
   r \<in> set rs \<or>
   (\<exists>f t. f \<in> set files \<and> t < MAX_TOTAL_CHARS \<and> \<not> isBinaryLike (fileContent f) \<and>
      r = pushed H f t)"
proof (induction files arbitrary: rs tot)
  case Nil
  then show ?case by simp
next
  case (Cons f files)
  show ?case
  proof (cases rule: load_loop_cases[where rs=rs and totalChars=tot and f=f and H=H
        and files=files])
    case break
    with Cons.prems show ?thesis by simp
  next
    case skip
    with Cons.prems Cons.IH[of rs tot] show ?thesis by auto
  next
    case push
    with Cons.prems
      Cons.IH[of "rs @ [pushed H f tot]" "tot + int (length (text (pushed H f tot)))"]
    show ?thesis by auto
  qed
qed

lemma pushed_length:
  "t < MAX_TOTAL_CHARS \<Longrightarrow>
   (\<not> truncated (pushed H f t) \<longrightarrow> int (length (text (pushed H f t))) \<le> file_cap t) \<and>
   (truncated (pushed H f t) \<longrightarrow>
      text (pushed H f t) = take (nat (file_cap t)) (fileContent f) @ truncation_marker \<and>
      int (length (text (pushed H f t))) = file_cap t + 25)"
  using file_cap_pos[of t]
  by (auto simp: pushed_def Let_def length_truncation_marker)

section \<open>The generator on concrete trees\<close>

lemma collect_single_js:
  "collectFiles posix_host [] [File (js ''a.js'') c] [] =
   [\<lparr>fullPath = [js ''a.js''], relativePath = js ''a.js'', fileContent = c\<rparr>]"
  by (simp add: posix_host_def js_def extname_def basename_def dot_def slash_def ascii_lower_def
      INCLUDED_EXTENSIONS_def EXCLUDED_FILES_def toPosixPath_def startsWith_def Let_def)

lemma load_long_file_tree:
  "loadResources posix_host long_file_tree =
     [\<lparr>uri = js ''file:///a.js'', path = js ''a.js'', name = js ''a.js'',
       mimeType = js ''text/plain'',
       text = replicate 12000 0x61 @ truncation_marker, truncated = True\<rparr>]"
  by (simp add: loadResources_def long_file_tree_def collect_single_js array_sort_def
      load_loop.simps(2) isBinaryLike_iff NUL_def MAX_FILES_def MAX_TOTAL_CHARS_def
      MAX_CHARS_PER_FILE_def getMimeType_def
      del: collectFiles.simps)
    (simp add: js_def basename_def slash_def extname_def dot_def posix_host_def ascii_lower_def)

section \<open>Size of one resource\<close>

text \<open>
  C1, as stated: the \<open>text\<close> of every resource has at most \<open>MAX_CHARS_PER_FILE\<close> code
  units, the marker of a truncated file included. The file \<open>a.js\<close> of 12001 letters
  refutes it: its resource has the first 12000 letters and the 25 units of the marker.
\<close>

theorem text_cap_counterexample:
  "\<not> (\<forall>r \<in> set (loadResources posix_host long_file_tree).
        int (length (text r)) \<le> MAX_CHARS_PER_FILE)"
  by (simp add: load_long_file_tree length_truncation_marker MAX_CHARS_PER_FILE_def)

text \<open>
  C1, amended: the cap bounds what is kept of the file. The \<open>text\<close> of a resource that
  is not truncated has at most \<open>MAX_CHARS_PER_FILE\<close> code units; the \<open>text\<close> of a
  truncated one is at most \<open>MAX_CHARS_PER_FILE\<close> code units of the file followed by the
  marker, so it has at most 12025 code units.
\<close>

theorem text_length_bound:
  assumes "r \<in> set (loadResources H root)"
  shows "(if truncated r
          then \<exists>kept. text r = kept @ truncation_marker \<and>
                 int (length kept) \<le> MAX_CHARS_PER_FILE
          else int (length (text r)) \<le> MAX_CHARS_PER_FILE) \<and>
         int (length (text r)) \<le> MAX_CHARS_PER_FILE + int (length truncation_marker)"
proof -
  from assms have "r \<in> set (load_loop H
      (array_sort (\<lambda>a b. localeCompare H (relativePath a) (relativePath b))
         (collectFiles H [] root [])) [] 0)"
    by (simp add: loadResources_def Let_def)
  from load_loop_elems[OF this] obtain f t where ft: "t < MAX_TOTAL_CHARS" "r = pushed H f t"
    by auto
  from pushed_length[OF ft(1), of H f] file_cap_le_per_file[of t] file_cap_pos[OF ft(1)] ft(2)
  show ?thesis
    by (auto simp: length_truncation_marker)
qed

theorem text_length_bound_witness:
  "hd (loadResources posix_host long_file_tree) \<in> set (loadResources posix_host long_file_tree) \<and>
   truncated (hd (loadResources posix_host long_file_tree)) \<and>
   (\<exists>kept. text (hd (loadResources posix_host long_file_tree)) = kept @ truncation_marker \<and>
      int (length kept) \<le> MAX_CHARS_PER_FILE) \<and>
   int (length (text (hd (loadResources posix_host long_file_tree)))) \<le> 12025"
proof -
  have mem: "hd (loadResources posix_host long_file_tree) \<in>
      set (loadResources posix_host long_file_tree)"
    by (simp add: load_long_file_tree)
  have tr: "truncated (hd (loadResources posix_host long_file_tree))"
    by (simp add: load_long_file_tree)
  from text_length_bound[OF mem] tr mem show ?thesis
    by (simp add: MAX_CHARS_PER_FILE_def length_truncation_marker)
qed

section \<open>Total size of a snapshot\<close>

lemma total_text_append: "total_text (a @ b) = total_text a + total_text b"
  by (simp add: total_text_def)

lemma total_text_single: "total_text [r] = int (length (text r))"
  by (simp add: total_text_def)

lemma pushed_length_le:
  assumes "t < MAX_TOTAL_CHARS"
  shows "int (length (text (pushed H f t))) \<le> MAX_TOTAL_CHARS - t + 25"
  using pushed_length[OF assms, of H f] file_cap_le_available[OF assms]
  by (cases "truncated (pushed H f t)") auto

lemma load_loop_total:
  "t = total_text rs \<Longrightarrow> t \<le> MAX_TOTAL_CHARS + 25 \<Longrightarrow>
   total_text (load_loop H files rs t) \<le> MAX_TOTAL_CHARS + 25"
proof (induction files arbitrary: rs t)
  case Nil
  then show ?case by simp
next
  case (Cons f files)
  show ?case
  proof (cases rule: load_loop_cases[where rs=rs and totalChars=t and f=f and H=H
        and files=files])
    case break
    with Cons.prems show ?thesis by simp
  next
    case skip
    with Cons.prems Cons.IH[of t rs] show ?thesis by simp
  next
    case push
    let ?r = "pushed H f t"
    have "total_text (load_loop H files (rs @ [?r]) (t + int (length (text ?r))))
        \<le> MAX_TOTAL_CHARS + 25"
    proof (rule Cons.IH)
      show "t + int (length (text ?r)) = total_text (rs @ [?r])"
        using Cons.prems(1) by (simp add: total_text_append total_text_single)
      show "t + int (length (text ?r)) \<le> MAX_TOTAL_CHARS + 25"
        using pushed_length_le[OF push(2), of H f] by simp
    qed
    with push show ?thesis by simp
  qed
qed

lemma load_loop_extends: "\<exists>added. load_loop H files rs t = rs @ added"
proof (induction files arbitrary: rs t)
  case Nil
  then show ?case by simp
next
  case (Cons f files)
  show ?case
  proof (cases rule: load_loop_cases[where rs=rs and totalChars=t and f=f and H=H
        and files=files])
    case break
    then show ?thesis by simp
  next
    case skip
    with Cons.IH[of rs t] show ?thesis by simp
  next
    case push
    with Cons.IH[of "rs @ [pushed H f t]" "t + int (length (text (pushed H f t)))"]
    show ?thesis by auto
  qed
qed

lemma load_loop_running:
  "t = total_text rs \<Longrightarrow> load_loop H files rs t = pre @ r # post \<Longrightarrow>
   length rs \<le> length pre \<Longrightarrow> total_text pre < MAX_TOTAL_CHARS"
proof (induction files arbitrary: rs t)
  case Nil
  then show ?case by simp
next
  case (Cons f files)
  show ?case
  proof (cases rule: load_loop_cases[where rs=rs and totalChars=t and f=f and H=H
        and files=files])
    case break
    with Cons.prems(2) have "rs = pre @ r # post" by simp
    then have "length rs = length pre + 1 + length post" by simp
    with Cons.prems(3) show ?thesis by simp
  next
    case skip
    with Cons.prems Cons.IH[of t rs] show ?thesis by simp
  next
    case push
    let ?r = "pushed H f t"
    let ?t' = "t + int (length (text ?r))"
    have eq: "load_loop H files (rs @ [?r]) ?t' = pre @ r # post"
      using push Cons.prems(2) by simp
    have t': "?t' = total_text (rs @ [?r])"
      using Cons.prems(1) by (simp add: total_text_append total_text_single)
    show ?thesis
    proof (cases "length pre = length rs")
      case True
      from load_loop_extends[of H files "rs @ [?r]" ?t'] eq
      obtain added where "pre @ r # post = rs @ ?r # added" by auto
      with True have "pre = rs" by simp
      with Cons.prems(1) push(2) show ?thesis by simp
    next
      case False
      with Cons.prems(3) have "length (rs @ [?r]) \<le> length pre" by simp
      from Cons.IH[OF t' eq this] show ?thesis .
    qed
  qed
qed

lemma collect_full_files: "collectFiles posix_host [] full_files_tree [] = 
  grid_refs [0x61, 0x62, 0x63, 0x64, 0x65, 0x66] [0x61, 0x62, 0x63, 0x64, 0x65, 0x66, 0x67] (replicate 12000 0x61)"
  by (simp add: full_files_tree_def grid_tree_def grid_refs_def posix_host_def js_def extname_def basename_def dot_def slash_def ascii_lower_def
      INCLUDED_EXTENSIONS_def EXCLUDED_FILES_def toPosixPath_def startsWith_def Let_def)

lemma sort_full_files: "array_sort (\<lambda>a b. localeCompare posix_host (relativePath a) (relativePath b)) (grid_refs [0x61, 0x62, 0x63, 0x64, 0x65, 0x66] [0x61, 0x62, 0x63, 0x64, 0x65, 0x66, 0x67] (replicate 12000 0x61))
  = grid_refs [0x61, 0x62, 0x63, 0x64, 0x65, 0x66] [0x61, 0x62, 0x63, 0x64, 0x65, 0x66, 0x67] (replicate 12000 0x61)"
  by (simp add: array_sort_def grid_refs_def posix_host_def js_def ascii_collate_def primary_weight_def tertiary_weight_def Let_def)

lemma total_full_files: "total_text (loadResources posix_host full_files_tree) = 500025"
  apply (simp add: loadResources_def collect_full_files sort_full_files del: collectFiles.simps)
  apply (simp add: grid_refs_def load_loop.simps(2) isBinaryLike_iff NUL_def MAX_FILES_def MAX_TOTAL_CHARS_def
      MAX_CHARS_PER_FILE_def total_text_def length_truncation_marker Let_def)
  done


text \<open>
  C2, as stated: the \<open>text\<close> lengths of a snapshot sum to at most \<open>MAX_TOTAL_CHARS\<close>.
  With 42 files of 12000 letters the first 41 are taken whole (492000 units); the last
  is cut to the 8000 units left and gets the marker: 500025 units in all.
\<close>

theorem total_cap_counterexample:
  "\<not> (total_text (loadResources posix_host full_files_tree) \<le> MAX_TOTAL_CHARS)"
  by (simp add: total_full_files MAX_TOTAL_CHARS_def)

text \<open>
  C2, amended: the \<open>text\<close> lengths of a snapshot sum to at most \<open>MAX_TOTAL_CHARS\<close> plus
  the length of one marker (500025), and every resource was added while the sum of
  those before it was still below \<open>MAX_TOTAL_CHARS\<close>: once the running total reaches the
  cap no further file is added.
\<close>

theorem total_chars_bound:
  "total_text (loadResources H root) \<le> MAX_TOTAL_CHARS + int (length truncation_marker) \<and>
   (\<forall>pre r post. loadResources H root = pre @ r # post \<longrightarrow> total_text pre < MAX_TOTAL_CHARS)"
proof
  show "total_text (loadResources H root) \<le> MAX_TOTAL_CHARS + int (length truncation_marker)"
    using load_loop_total[of 0 "[]" H]
    by (simp add: loadResources_def Let_def total_text_def length_truncation_marker
        MAX_TOTAL_CHARS_def)
  show "\<forall>pre r post. loadResources H root = pre @ r # post \<longrightarrow> total_text pre < MAX_TOTAL_CHARS"
    using load_loop_running[of 0 "[]" H]
    by (simp add: loadResources_def Let_def total_text_def)
qed

theorem total_chars_bound_witness:
  "total_text (loadResources posix_host full_files_tree) \<le> 500025 \<and>
   total_text (butlast (loadResources posix_host full_files_tree)) < 500000"
proof -
  let ?rs = "loadResources posix_host full_files_tree"
  from total_chars_bound[of posix_host full_files_tree]
  have a: "total_text ?rs \<le> MAX_TOTAL_CHARS + int (length truncation_marker)"
    and b: "\<And>pre r post. ?rs = pre @ r # post \<Longrightarrow> total_text pre < MAX_TOTAL_CHARS"
    by blast+
  have ne: "?rs \<noteq> []"
    using total_full_files by (auto simp: total_text_def)
  have "total_text (butlast ?rs) < MAX_TOTAL_CHARS"
    by (rule b[of "butlast ?rs" "last ?rs" "[]"]) (simp add: ne)
  with a show ?thesis
    by (simp add: MAX_TOTAL_CHARS_def length_truncation_marker)
qed

section \<open>Paths\<close>

lemma split_not_Nil: "split c s \<noteq> []"
  by (induction s) (auto split: list.splits)

lemma join_split: "join [d] (split c s) = map (\<lambda>x. if x = c then d else x) s"
proof (induction s)
  case Nil
  then show ?case by simp
next
  case (Cons x xs)
  show ?case
  proof (cases "x = c")
    case True
    with Cons split_not_Nil[of c xs] show ?thesis
      by (cases "split c xs") auto
  next
    case False
    with Cons split_not_Nil[of c xs] show ?thesis
      by (cases "split c xs"; cases "tl (split c xs)") auto
  qed
qed

lemma map_join: "map f (join d p) = join (map f d) (map (map f) p)"
  by (induction d p rule: join.induct) auto

lemma split_free: "c \<notin> set n \<Longrightarrow> split c n = [n]"
  by (induction n) auto

lemma split_append_sep: "c \<notin> set n \<Longrightarrow> split c (n @ c # s) = n # split c s"
  by (induction n) auto

lemma split_join:
  "p \<noteq> [] \<Longrightarrow> \<forall>n \<in> set p. c \<notin> set n \<Longrightarrow> split c (join [c] p) = p"
  by (induction "[c]" p rule: join.induct) (auto simp: split_free split_append_sep)

lemma normalized_path_legal:
  assumes "\<forall>n \<in> set p. sep (platform H) \<notin> set n"
  shows "normalized_path H p = join [slash] p"
proof -
  have inner: "map (\<lambda>x. if x = sep (platform H) then slash else x) n = n"
    if "n \<in> set p" for n
    by (rule map_idI) (use assms that in auto)
  have "map (map (\<lambda>x. if x = sep (platform H) then slash else x)) p = p"
    by (rule map_idI) (rule inner)
  then show ?thesis
    by (simp add: normalized_path_def toPosixPath_def join_split map_join)
qed

lemma prefix_sep_eq:
  "c \<notin> set a \<Longrightarrow> c \<notin> set b \<Longrightarrow> prefix (a @ [c]) (b @ c # s) \<Longrightarrow> a = b"
proof (induction a arbitrary: b)
  case Nil
  then show ?case by (cases b) auto
next
  case (Cons x a)
  then show ?case by (cases b) auto
qed

lemma public_slash: "js ''public/'' = js ''public'' @ [slash]"
  by (simp add: js_def slash_def)

lemma slash_not_in_public: "slash \<notin> set (js ''public'')"
  by (simp add: js_def slash_def)

lemma startsWith_public:
  assumes "\<forall>n \<in> set p. slash \<notin> set n"
  shows "startsWith (join [slash] p) (js ''public/'') \<longleftrightarrow> under_public p"
proof (cases p)
  case Nil
  then show ?thesis by (simp add: startsWith_def under_public_def js_def)
next
  case (Cons n rest)
  show ?thesis
  proof (cases rest)
    case Nil
    with Cons have p: "p = [n]" by simp
    have "\<not> prefix (js ''public'' @ [slash]) n"
    proof
      assume "prefix (js ''public'' @ [slash]) n"
      then have "slash \<in> set n" by (auto simp: prefix_def)
      with assms p show False by simp
    qed
    with p show ?thesis by (simp add: startsWith_def under_public_def public_slash)
  next
    case (Cons q ps)
    with \<open>p = n # rest\<close> have p: "p = n # q # ps" by simp
    have "prefix (js ''public'' @ [slash]) (n @ slash # join [slash] (q # ps)) \<longleftrightarrow>
        n = js ''public''"
      using prefix_sep_eq[of slash "js ''public''" n "join [slash] (q # ps)"] assms p
        slash_not_in_public
      by auto
    with p show ?thesis by (simp add: startsWith_def under_public_def public_slash)
  qed
qed

lemma split_public_index:
  "split slash (js ''public/index.html'') = [js ''public'', js ''index.html'']"
  by (simp add: js_def slash_def)

lemma join_public_index:
  assumes "\<forall>n \<in> set p. slash \<notin> set n"
  shows "join [slash] p = js ''public/index.html'' \<longleftrightarrow> p = [js ''public'', js ''index.html'']"
proof
  assume a: "join [slash] p = js ''public/index.html''"
  then have "p \<noteq> []" by (auto simp: js_def)
  from split_join[OF this assms] a show "p = [js ''public'', js ''index.html'']"
    by (simp add: split_public_index)
next
  assume "p = [js ''public'', js ''index.html'']"
  then show "join [slash] p = js ''public/index.html''"
    by (simp add: js_def slash_def)
qed

lemma code_keeps_eligible:
  assumes "\<forall>n \<in> set p. slash \<notin> set n \<and> sep (platform H) \<notin> set n"
  shows "code_keeps H (p, c) \<longleftrightarrow> eligible H p"
proof -
  from assms have n: "normalized_path H p = join [slash] p"
    by (intro normalized_path_legal) simp
  from assms have s: "\<forall>n \<in> set p. slash \<notin> set n" by simp
  show ?thesis
    by (auto simp: code_keeps_def eligible_def n startsWith_public[OF s] join_public_index[OF s])
qed

section \<open>The walk\<close>

lemma collectFiles_walk:
  "collectFiles H d es acc = acc @ map (to_ref H) (filter (code_keeps H) (walk d es))"
proof (induction H d es acc rule: collectFiles.induct)
  case (1 H dirPath acc)
  then show ?case by simp
next
  case (2 H dirPath name sub entries acc)
  then show ?case by simp
next
  case (3 H dirPath name content entries acc)
  then show ?case
    by (simp add: Let_def code_keeps_def to_ref_def normalized_path_def)
qed


lemma files_of_walk:
  assumes "legal_names H root"
  shows "filter (\<lambda>f. \<not> isBinaryLike (fileContent f)) (collectFiles H [] root []) =
         map (\<lambda>(p, c). \<lparr>fullPath = p, relativePath = join [slash] p, fileContent = c\<rparr>)
           (expected_files H root)"
proof -
  have keeps: "filter (code_keeps H) (walk [] root) =
      filter (\<lambda>(p, c). eligible H p) (walk [] root)"
    using assms by (intro filter_cong) (auto simp: legal_names_def code_keeps_eligible)
  have "filter (\<lambda>f. \<not> isBinaryLike (fileContent f)) (collectFiles H [] root []) =
      map (to_ref H) (filter (\<lambda>(p, c). eligible H p \<and> NUL \<notin> set c) (walk [] root))"
    by (simp add: collectFiles_walk keeps filter_map o_def to_ref_def isBinaryLike_iff
        case_prod_unfold)
  also have "\<dots> = map (\<lambda>(p, c). \<lparr>fullPath = p, relativePath = join [slash] p, fileContent = c\<rparr>)
      (filter (\<lambda>(p, c). eligible H p \<and> NUL \<notin> set c) (walk [] root))"
    using assms
    by (intro map_cong) (auto simp: to_ref_def legal_names_def normalized_path_legal)
  finally show ?thesis by (simp add: expected_files_def)
qed

section \<open>Sorting\<close>

lemma mset_insert_sorted: "mset (insert_sorted cmp x ys) = add_mset x (mset ys)"
  by (induction ys) auto

lemma mset_array_sort: "mset (array_sort cmp xs) = mset xs"
  by (induction xs) (auto simp: array_sort_def mset_insert_sorted)

lemma set_array_sort: "set (array_sort cmp xs) = set xs"
  using mset_array_sort[of cmp xs] by (metis set_mset_mset)

lemma sorted_insert_sorted:
  assumes total: "\<And>a b. cmp a b \<le> 0 \<or> cmp b a \<le> 0"
    and trans: "\<And>a b c. cmp a b \<le> 0 \<Longrightarrow> cmp b c \<le> 0 \<Longrightarrow> cmp a c \<le> 0"
  shows "sorted_wrt (\<lambda>a b. cmp a b \<le> 0) ys \<Longrightarrow>
         sorted_wrt (\<lambda>a b. cmp a b \<le> 0) (insert_sorted cmp x ys)"
proof (induction ys)
  case Nil
  then show ?case by simp
next
  case (Cons y ys)
  show ?case
  proof (cases "cmp x y \<le> 0")
    case True
    with Cons.prems trans show ?thesis by auto
  next
    case False
    with total[of x y] have yx: "cmp y x \<le> 0" by simp
    have "set (insert_sorted cmp x ys) = insert x (set ys)"
      using mset_insert_sorted[of cmp x ys] by (metis set_mset_mset set_mset_add_mset_insert)
    with False yx Cons show ?thesis by auto
  qed
qed

lemma sorted_array_sort:
  assumes "\<And>a b. cmp a b \<le> 0 \<or> cmp b a \<le> 0"
    and "\<And>a b c. cmp a b \<le> 0 \<Longrightarrow> cmp b c \<le> 0 \<Longrightarrow> cmp a c \<le> 0"
  shows "sorted_wrt (\<lambda>a b. cmp a b \<le> 0) (array_sort cmp xs)"
proof (induction xs)
  case Nil
  then show ?case by (simp add: array_sort_def)
next
  case (Cons x xs)
  from sorted_insert_sorted[of cmp "array_sort cmp xs" x, OF assms Cons]
  show ?case by (simp add: array_sort_def)
qed

section \<open>Which files the loop takes\<close>

lemma path_pushed: "path (pushed H f t) = relativePath f"
  by (simp add: pushed_def Let_def)

lemma load_loop_paths:
  "\<exists>k. map path (load_loop H files rs t) =
     map path rs @ take k (map relativePath (filter (\<lambda>f. \<not> isBinaryLike (fileContent f)) files))"
proof (induction files arbitrary: rs t)
  case Nil
  then show ?case by simp
next
  case (Cons f files)
  show ?case
  proof (cases rule: load_loop_cases[where rs=rs and totalChars=t and f=f and H=H
        and files=files])
    case break
    then have "map path (load_loop H (f # files) rs t) = map path rs @
      take 0 (map relativePath (filter (\<lambda>f. \<not> isBinaryLike (fileContent f)) (f # files)))"
      by simp
    then show ?thesis by blast
  next
    case skip
    with Cons.IH[of rs t] show ?thesis by simp
  next
    case push
    from Cons.IH[of "rs @ [pushed H f t]" "t + int (length (text (pushed H f t)))"]
    obtain k where "map path (load_loop H files (rs @ [pushed H f t])
        (t + int (length (text (pushed H f t))))) =
      map path (rs @ [pushed H f t]) @
      take k (map relativePath (filter (\<lambda>f. \<not> isBinaryLike (fileContent f)) files))"
      by blast
    with push have "map path (load_loop H (f # files) rs t) = map path rs @
      take (Suc k) (map relativePath (filter (\<lambda>f. \<not> isBinaryLike (fileContent f)) (f # files)))"
      by (simp add: path_pushed)
    then show ?thesis by blast
  qed
qed

lemma pushed_length_cost:
  assumes "t < MAX_TOTAL_CHARS"
  shows "int (length (text (pushed H f t))) \<le>
         min (int (length (fileContent f))) MAX_CHARS_PER_FILE + 25"
proof (cases "truncated (pushed H f t)")
  case True
  then have "file_cap t < int (length (fileContent f))"
    by (simp add: pushed_def Let_def)
  moreover have "int (length (text (pushed H f t))) = file_cap t + 25"
    using pushed_length[OF assms, of H f] True by blast
  ultimately show ?thesis
    using file_cap_le_per_file[of t] by (simp add: min_def)
next
  case False
  then have "int (length (fileContent f)) \<le> file_cap t" "text (pushed H f t) = fileContent f"
    by (simp_all add: pushed_def Let_def)
  with file_cap_le_per_file[of t] show ?thesis by simp
qed

lemma load_loop_complete:
  assumes "t = total_text rs"
    and "length rs + length (filter (\<lambda>f. \<not> isBinaryLike (fileContent f)) files) \<le> MAX_FILES"
    and "t + sum_list (map (\<lambda>f. min (int (length (fileContent f))) MAX_CHARS_PER_FILE + 25)
            (filter (\<lambda>f. \<not> isBinaryLike (fileContent f)) files)) \<le> MAX_TOTAL_CHARS"
  shows "map path (load_loop H files rs t) =
     map path rs @ map relativePath (filter (\<lambda>f. \<not> isBinaryLike (fileContent f)) files)"
  using assms
proof (induction files arbitrary: rs t)
  case Nil
  then show ?case by simp
next
  case (Cons f files)
  let ?nb = "\<lambda>f. \<not> isBinaryLike (fileContent f)"
  let ?cost = "\<lambda>f. min (int (length (fileContent f))) MAX_CHARS_PER_FILE + 25"
  have nonneg: "0 \<le> sum_list (map ?cost (filter ?nb files))"
    by (rule sum_list_nonneg) (auto simp: MAX_CHARS_PER_FILE_def)
  show ?case
  proof (cases rule: load_loop_cases[where rs=rs and totalChars=t and f=f and H=H
        and files=files])
    case break
    have "isBinaryLike (fileContent f)"
    proof (rule ccontr)
      assume nb: "\<not> isBinaryLike (fileContent f)"
      with Cons.prems(2) have "length rs < MAX_FILES" by simp
      moreover from nb Cons.prems(3) nonneg have "t < MAX_TOTAL_CHARS"
        by (simp add: MAX_CHARS_PER_FILE_def)
      ultimately show False using break(1) by simp
    qed
    moreover have "filter ?nb files = []"
    proof (rule ccontr)
      assume ne: "filter ?nb files \<noteq> []"
      then have "Suc 0 \<le> length (filter ?nb files)" by (simp add: Suc_le_eq)
      moreover from Cons.prems(2) \<open>isBinaryLike (fileContent f)\<close>
      have "length rs + length (filter ?nb files) \<le> MAX_FILES" by simp
      ultimately have "length rs < MAX_FILES" by linarith
      have "0 < sum_list (map ?cost (filter ?nb files))"
      proof -
        from ne obtain g gs where "filter ?nb files = g # gs" by (cases "filter ?nb files") auto
        moreover have "0 \<le> sum_list (map ?cost gs)"
          by (rule sum_list_nonneg) (auto simp: MAX_CHARS_PER_FILE_def)
        ultimately show ?thesis by (simp add: MAX_CHARS_PER_FILE_def)
      qed
      with Cons.prems(3) \<open>isBinaryLike (fileContent f)\<close> have "t < MAX_TOTAL_CHARS" by simp
      with \<open>length rs < MAX_FILES\<close> show False using break(1) by simp
    qed
    ultimately show ?thesis using break(2) by simp
  next
    case skip
    with Cons.prems Cons.IH[of t rs] show ?thesis by simp
  next
    case push
    let ?r = "pushed H f t"
    let ?t' = "t + int (length (text ?r))"
    have "map path (load_loop H files (rs @ [?r]) ?t') =
        map path (rs @ [?r]) @ map relativePath (filter ?nb files)"
    proof (rule Cons.IH)
      show "?t' = total_text (rs @ [?r])"
        using Cons.prems(1) by (simp add: total_text_append total_text_single)
      show "length (rs @ [?r]) + length (filter ?nb files) \<le> MAX_FILES"
        using Cons.prems(2) push(3) by simp
      show "?t' + sum_list (map ?cost (filter ?nb files)) \<le> MAX_TOTAL_CHARS"
        using Cons.prems(3) push(3) pushed_length_cost[OF push(2), of H f] by simp
    qed
    with push show ?thesis by (simp add: path_pushed)
  qed
qed

section \<open>Paths of a snapshot\<close>

lemma length_load_loop: "length (load_loop H files rs t) \<le> max (length rs) MAX_FILES"
proof (induction files arbitrary: rs t)
  case Nil
  then show ?case by simp
next
  case (Cons f files)
  show ?case
  proof (cases rule: load_loop_cases[where rs=rs and totalChars=t and f=f and H=H
        and files=files])
    case break
    then show ?thesis by simp
  next
    case skip
    with Cons.IH[of rs t] show ?thesis by simp
  next
    case push
    with Cons.IH[of "rs @ [pushed H f t]" "t + int (length (text (pushed H f t)))"]
    show ?thesis by simp
  qed
qed

lemma length_loadResources: "length (loadResources H root) \<le> MAX_FILES"
  using length_load_loop[of H _ "[]" 0] by (simp add: loadResources_def Let_def)

lemma walk_files:
  "walk [] (map (\<lambda>y. File (f y) c) ys @ rest) = map (\<lambda>y. ([f y], c)) ys @ walk [] rest"
  by (induction ys) auto

lemma walk_grid:
  "walk [] (grid_tree xs ys c) = concat (map (\<lambda>x. map (\<lambda>y. ([[x, y] @ js ''.js''], c)) ys) xs)"
  unfolding grid_tree_def by (induction xs) (auto simp: walk_files)

lemma eligible_grid_name:
  assumes "x \<noteq> dot" "x \<noteq> slash" "y \<noteq> dot" "y \<noteq> slash"
  shows "eligible posix_host [x # y # js ''.js'']"
  using assms
  by (simp add: eligible_def under_public_def posix_host_def js_def extname_def basename_def
      dot_def slash_def ascii_lower_def INCLUDED_EXTENSIONS_def EXCLUDED_FILES_def)

lemma expected_grid:
  assumes "\<forall>x \<in> set xs. x \<noteq> dot \<and> x \<noteq> slash" "\<forall>y \<in> set ys. y \<noteq> dot \<and> y \<noteq> slash"
    "NUL \<notin> set c"
  shows "expected_files posix_host (grid_tree xs ys c) = walk [] (grid_tree xs ys c)"
  unfolding expected_files_def
  using assms by (intro filter_True) (auto simp: walk_grid eligible_grid_name)

lemma length_grid: "length (concat (map (\<lambda>x. map (g x) ys) xs)) = length xs * length ys"
  by (induction xs) auto

lemma distinct_grid:
  assumes "distinct xs" "distinct ys"
  shows "distinct (concat (map (\<lambda>x. map (\<lambda>y. [x, y] @ s) ys) xs))"
  using assms(1)
proof (induction xs)
  case Nil
  then show ?case by simp
next
  case (Cons x xs)
  have "distinct (map (\<lambda>y. [x, y] @ s) ys)"
    using assms(2) by (simp add: distinct_map inj_on_def)
  with Cons show ?case by auto
qed

lemma expected_paths_grid:
  assumes "\<forall>x \<in> set xs. x \<noteq> dot \<and> x \<noteq> slash" "\<forall>y \<in> set ys. y \<noteq> dot \<and> y \<noteq> slash"
    "NUL \<notin> set c"
  shows "expected_paths posix_host (grid_tree xs ys c) =
         set (concat (map (\<lambda>x. map (\<lambda>y. [x, y] @ js ''.js'') ys) xs))"
proof -
  have "map (\<lambda>(p, c). join [slash] p)
          (concat (map (\<lambda>x. map (\<lambda>y. ([[x, y] @ js ''.js''], c)) ys) xs)) =
        concat (map (\<lambda>x. map (\<lambda>y. [x, y] @ js ''.js'') ys) xs)"
    by (induction xs) (auto simp: map_concat o_def)
  then show ?thesis
    unfolding expected_paths_def expected_grid[OF assms] walk_grid
    by (metis set_map)
qed

lemma card_expected_many: "card (expected_paths posix_host many_files_tree) = 121"
proof -
  let ?xs = "[0x61, 0x62, 0x63, 0x64, 0x65, 0x66, 0x67, 0x68, 0x69, 0x6A, 0x6B] :: jschar list"
  have "expected_paths posix_host many_files_tree =
      set (concat (map (\<lambda>x. map (\<lambda>y. [x, y] @ js ''.js'') ?xs) ?xs))"
    unfolding many_files_tree_def
    by (rule expected_paths_grid) (simp_all add: dot_def slash_def NUL_def js_def)
  moreover have "distinct (concat (map (\<lambda>x. map (\<lambda>y. [x, y] @ js ''.js'') ?xs) ?xs))"
    by (rule distinct_grid) simp_all
  ultimately show ?thesis
    by (simp only: distinct_card length_grid) simp
qed

lemma mset_sum_list_map:
  assumes "mset xs = mset ys"
  shows "sum_list (map g xs) = (sum_list (map g ys) :: int)"
proof -
  have "sum_mset (mset (map g xs)) = sum_mset (mset (map g ys))"
    using assms by simp
  then show ?thesis by (simp only: sum_mset_sum_list)
qed

lemma sorted_files_non_binary:
  "mset (filter P (array_sort cmp xs)) = mset (filter P xs)"
  by (simp add: mset_array_sort)


section \<open>The collation of the evaluation host\<close>

lemma compare_units_flip: "compare_units b a = - compare_units a b"
  by (induction a b rule: compare_units.induct) auto

lemma compare_units_eq: "compare_units a b = 0 \<longleftrightarrow> a = b"
  by (induction a b rule: compare_units.induct) auto

lemma compare_units_trans:
  "compare_units a b \<le> 0 \<Longrightarrow> compare_units b c \<le> 0 \<Longrightarrow> compare_units a c \<le> 0"
proof (induction a arbitrary: b c)
  case Nil
  then show ?case by (cases c) auto
next
  case (Cons x a)
  then show ?case
    by (cases b; cases c) (auto split: if_splits)
qed

lemma compare_units_strict_trans:
  assumes "compare_units a b < 0" "compare_units b c \<le> 0"
  shows "compare_units a c < 0"
proof -
  from assms have le: "compare_units a c \<le> 0"
    using compare_units_trans[of a b c] by simp
  have "compare_units a c \<noteq> 0"
  proof
    assume "compare_units a c = 0"
    then have "a = c" by (simp add: compare_units_eq)
    with assms(2) have "compare_units b a \<le> 0" by simp
    with assms(1) compare_units_flip[of b a] show False by simp
  qed
  with le show ?thesis by simp
qed

lemma compare_units_strict_trans':
  assumes "compare_units a b \<le> 0" "compare_units b c < 0"
  shows "compare_units a c < 0"
proof -
  from assms have le: "compare_units a c \<le> 0"
    using compare_units_trans[of a b c] by simp
  have "compare_units a c \<noteq> 0"
  proof
    assume "compare_units a c = 0"
    then have "a = c" by (simp add: compare_units_eq)
    with assms(1) have "compare_units c b \<le> 0" by simp
    with assms(2) compare_units_flip[of c b] show False by simp
  qed
  with le show ?thesis by simp
qed

lemma ascii_collate_le:
  "ascii_collate a b \<le> 0 \<longleftrightarrow>
     compare_units (map primary_weight a) (map primary_weight b) < 0 \<or>
     (map primary_weight a = map primary_weight b \<and>
      compare_units (map tertiary_weight a) (map tertiary_weight b) \<le> 0)"
proof -
  have "ascii_collate a b \<le> 0 \<longleftrightarrow>
     compare_units (map primary_weight a) (map primary_weight b) < 0 \<or>
     (compare_units (map primary_weight a) (map primary_weight b) = 0 \<and>
      compare_units (map tertiary_weight a) (map tertiary_weight b) \<le> 0)"
    by (auto simp: ascii_collate_def Let_def)
  then show ?thesis by (simp only: compare_units_eq)
qed

lemma consistent_ascii_collate: "consistent_comparator ascii_collate"
  unfolding consistent_comparator_def
proof (intro conjI allI impI)
  fix a b
  let ?pa = "map primary_weight a" and ?pb = "map primary_weight b"
  let ?ta = "map tertiary_weight a" and ?tb = "map tertiary_weight b"
  consider "compare_units ?pa ?pb < 0" | "compare_units ?pb ?pa < 0" | "?pa = ?pb"
    using compare_units_flip[of ?pb ?pa] compare_units_eq[of ?pa ?pb]
    by (cases "compare_units ?pa ?pb < 0"; cases "compare_units ?pa ?pb = 0") auto
  then show "ascii_collate a b \<le> 0 \<or> ascii_collate b a \<le> 0"
  proof cases
    case 1
    then show ?thesis by (simp add: ascii_collate_le)
  next
    case 2
    then show ?thesis by (simp add: ascii_collate_le)
  next
    case 3
    have "compare_units ?ta ?tb \<le> 0 \<or> compare_units ?tb ?ta \<le> 0"
      using compare_units_flip[of ?tb ?ta] by linarith
    with 3 show ?thesis by (auto simp: ascii_collate_le)
  qed
next
  fix a b c
  let ?pa = "map primary_weight a" and ?pb = "map primary_weight b"
    and ?pc = "map primary_weight c"
  let ?ta = "map tertiary_weight a" and ?tb = "map tertiary_weight b"
    and ?tc = "map tertiary_weight c"
  assume "ascii_collate a b \<le> 0 \<and> ascii_collate b c \<le> 0"
  then have ab: "compare_units ?pa ?pb < 0 \<or> (?pa = ?pb \<and> compare_units ?ta ?tb \<le> 0)"
    and bc: "compare_units ?pb ?pc < 0 \<or> (?pb = ?pc \<and> compare_units ?tb ?tc \<le> 0)"
    by (simp_all add: ascii_collate_le)
  from ab show "ascii_collate a c \<le> 0"
  proof
    assume lt: "compare_units ?pa ?pb < 0"
    from bc have "compare_units ?pb ?pc \<le> 0"
      using compare_units_eq[of ?pb ?pc] by auto
    from compare_units_strict_trans[OF lt this] show ?thesis
      by (simp add: ascii_collate_le)
  next
    assume eq: "?pa = ?pb \<and> compare_units ?ta ?tb \<le> 0"
    from bc show ?thesis
    proof
      assume "compare_units ?pb ?pc < 0"
      with eq show ?thesis by (simp add: ascii_collate_le)
    next
      assume "?pb = ?pc \<and> compare_units ?tb ?tc \<le> 0"
      with eq compare_units_trans[of ?ta ?tb ?tc] show ?thesis
        by (simp add: ascii_collate_le)
    qed
  qed
qed

section \<open>Independence of the platform\<close>

lemma pushed_host: "toLowerCase H = toLowerCase H' \<Longrightarrow> pushed H f t = pushed H' f t"
  by (simp add: pushed_def getMimeType_def Let_def)

lemma load_loop_host:
  assumes "toLowerCase H = toLowerCase H'"
  shows "load_loop H files rs t = load_loop H' files rs t"
proof (induction files arbitrary: rs t)
  case Nil
  then show ?case by simp
next
  case (Cons f files)
  show ?case
  proof (cases rule: load_loop_cases[where rs=rs and totalChars=t and f=f and H=H
        and files=files])
    case break
    then show ?thesis by (simp add: load_loop_break)
  next
    case skip
    with Cons.IH[of rs t] show ?thesis by (simp add: load_loop_skip)
  next
    case push
    with Cons.IH[of "rs @ [pushed H f t]" "t + int (length (text (pushed H f t)))"]
      pushed_host[OF assms, of f t]
    show ?thesis by (simp add: load_loop_push)
  qed
qed

lemma collect_legal:
  assumes "legal_names H root"
  shows "collectFiles H [] root [] =
         map (\<lambda>(p, c). \<lparr>fullPath = p, relativePath = join [slash] p, fileContent = c\<rparr>)
           (filter (\<lambda>(p, c). eligible H p) (walk [] root))"
proof -
  have "filter (code_keeps H) (walk [] root) = filter (\<lambda>(p, c). eligible H p) (walk [] root)"
    using assms by (intro filter_cong) (auto simp: legal_names_def code_keeps_eligible)
  moreover have "map (to_ref H) (filter (\<lambda>(p, c). eligible H p) (walk [] root)) =
      map (\<lambda>(p, c). \<lparr>fullPath = p, relativePath = join [slash] p, fileContent = c\<rparr>)
        (filter (\<lambda>(p, c). eligible H p) (walk [] root))"
    using assms
    by (intro map_cong) (auto simp: to_ref_def legal_names_def normalized_path_legal)
  ultimately show ?thesis by (simp add: collectFiles_walk)
qed

lemma loadResources_platform:
  assumes "legal_names (H\<lparr>platform := Posix\<rparr>) root" "legal_names (H\<lparr>platform := Win32\<rparr>) root"
  shows "loadResources (H\<lparr>platform := Posix\<rparr>) root = loadResources (H\<lparr>platform := Win32\<rparr>) root"
proof -
  have "eligible (H\<lparr>platform := Posix\<rparr>) = eligible (H\<lparr>platform := Win32\<rparr>)"
    by (simp add: eligible_def fun_eq_iff)
  then have "collectFiles (H\<lparr>platform := Posix\<rparr>) [] root [] =
      collectFiles (H\<lparr>platform := Win32\<rparr>) [] root []"
    by (simp only: collect_legal[OF assms(1)] collect_legal[OF assms(2)])
  moreover have "load_loop (H\<lparr>platform := Posix\<rparr>) files [] 0 =
      load_loop (H\<lparr>platform := Win32\<rparr>) files [] 0" for files
    by (rule load_loop_host) simp
  ultimately show ?thesis
    by (simp add: loadResources_def Let_def)
qed


section \<open>Concrete projects\<close>

lemma load_mixed_case:
  "map path (loadResources posix_host mixed_case_tree) = [js ''a.js'', js ''B.js'']"
  by code_simp

lemma load_sample:
  "map path (loadResources posix_host sample_tree) = [js ''public/index.html'', js ''README.md'', js ''src/App.js'']"
  by code_simp

lemma legal_sample: "legal_names posix_host sample_tree"
  by code_simp

lemma budgets_sample: "within_budgets posix_host sample_tree"
  by code_simp

lemma expected_sample: "expected_paths posix_host sample_tree = {js ''public/index.html'', js ''README.md'', js ''src/App.js''}"
  by code_simp

section \<open>Which paths a snapshot has\<close>

text \<open>
  C3, as stated: the paths of the snapshot are exactly the paths of the files that meet
  the rules and have no NUL. The project of 121 such files refutes it: all 121 paths
  are expected, and the loop stops at \<open>MAX_FILES\<close> = 120 resources.
\<close>

theorem paths_counterexample:
  "set (map path (loadResources posix_host many_files_tree)) \<noteq>
   expected_paths posix_host many_files_tree"
proof
  assume "set (map path (loadResources posix_host many_files_tree)) =
    expected_paths posix_host many_files_tree"
  then have "card (expected_paths posix_host many_files_tree) \<le>
    length (map path (loadResources posix_host many_files_tree))"
    by (metis card_length)
  with length_loadResources[of posix_host many_files_tree] card_expected_many
  show False by (simp add: MAX_FILES_def)
qed



text \<open>
  C3, amended: for a project whose names are legal, the paths of the snapshot are
  paths of files outside the ignored directories whose lower-cased extension is in
  the allow-list, whose name is not in the deny-list, which are not under \<open>public\<close>
  (\<open>public/index.html\<close> apart) and whose content has no NUL; and they are exactly
  the paths of all those files when the budgets leave room for them (at most
  \<open>MAX_FILES\<close> of them, and the sum over them of the smaller of length and
  \<open>MAX_CHARS_PER_FILE\<close>, plus the marker, within \<open>MAX_TOTAL_CHARS\<close>).
\<close>

theorem paths_within_expected:
  assumes "legal_names H root"
  shows "set (map path (loadResources H root)) \<subseteq> expected_paths H root \<and>
         (within_budgets H root \<longrightarrow>
            set (map path (loadResources H root)) = expected_paths H root)"
proof -
  let ?nb = "\<lambda>f. \<not> isBinaryLike (fileContent f)"
  let ?cmp = "\<lambda>a b. localeCompare H (relativePath a) (relativePath b)"
  let ?files = "collectFiles H [] root []"
  let ?sorted = "array_sort ?cmp ?files"
  let ?ref = "\<lambda>(p, c). \<lparr>fullPath = p, relativePath = join [slash] p, fileContent = c\<rparr>"
  have perm: "mset (filter ?nb ?sorted) = mset (map ?ref (expected_files H root))"
    by (simp only: sorted_files_non_binary files_of_walk[OF assms])
  have paths: "set (map relativePath (filter ?nb ?sorted)) = expected_paths H root"
  proof -
    from perm have "set (filter ?nb ?sorted) = set (map ?ref (expected_files H root))"
      by (rule mset_eq_setD)
    then have "set (map relativePath (filter ?nb ?sorted)) =
        relativePath ` set (map ?ref (expected_files H root))"
      by (simp only: set_map)
    also have "\<dots> = expected_paths H root"
      by (simp add: expected_paths_def image_image case_prod_unfold)
    finally show ?thesis .
  qed
  from load_loop_paths[of H ?sorted "[]" 0] obtain k where
    k: "map path (loadResources H root) = take k (map relativePath (filter ?nb ?sorted))"
    by (auto simp: loadResources_def Let_def)
  have sub: "set (map path (loadResources H root)) \<subseteq> expected_paths H root"
    unfolding k paths[symmetric] by (rule set_take_subset)
  have eq: "set (map path (loadResources H root)) = expected_paths H root"
    if wb: "within_budgets H root"
  proof -
    have len: "length (filter ?nb ?sorted) = length (expected_files H root)"
    proof -
      from perm have "size (mset (filter ?nb ?sorted)) =
          size (mset (map ?ref (expected_files H root)))"
        by (rule arg_cong)
      then show ?thesis by (simp only: size_mset length_map)
    qed
    have "sum_list (map (\<lambda>f. min (int (length (fileContent f))) MAX_CHARS_PER_FILE + 25)
            (filter ?nb ?sorted)) =
          sum_list (map (\<lambda>f. min (int (length (fileContent f))) MAX_CHARS_PER_FILE + 25)
            (map ?ref (expected_files H root)))"
      by (rule mset_sum_list_map[OF perm])
    also have "\<dots> = sum_list (map (\<lambda>(p, c). min (int (length c)) MAX_CHARS_PER_FILE +
         int (length truncation_marker)) (expected_files H root))"
      by (simp add: o_def case_prod_unfold length_truncation_marker)
    finally have cost: "sum_list (map (\<lambda>f. min (int (length (fileContent f))) MAX_CHARS_PER_FILE + 25)
            (filter ?nb ?sorted)) \<le> MAX_TOTAL_CHARS"
      using wb by (simp add: within_budgets_def)
    have a1: "0 = total_text []" by (simp add: total_text_def)
    have a2: "length ([] :: resource list) + length (filter ?nb ?sorted) \<le> MAX_FILES"
      using wb len by (simp add: within_budgets_def)
    have a3: "0 + sum_list (map (\<lambda>f. min (int (length (fileContent f))) MAX_CHARS_PER_FILE + 25)
            (filter ?nb ?sorted)) \<le> MAX_TOTAL_CHARS"
      using cost by simp
    from load_loop_complete[OF a1 a2 a3, of H]
    have "map path (load_loop H ?sorted [] 0) = map relativePath (filter ?nb ?sorted)"
      by simp
    then have "map path (loadResources H root) = map relativePath (filter ?nb ?sorted)"
      by (simp add: loadResources_def Let_def)
    with paths show ?thesis by simp
  qed
  from sub eq show ?thesis by blast
qed


theorem paths_within_expected_witness:
  "legal_names posix_host sample_tree \<and> within_budgets posix_host sample_tree \<and>
   set (map path (loadResources posix_host sample_tree)) =
     {js ''public/index.html'', js ''README.md'', js ''src/App.js''}"
  using paths_within_expected[OF legal_sample] budgets_sample legal_sample expected_sample
  by simp

section \<open>The order of a snapshot\<close>

text \<open>
  C4, as stated: the resources are in ascending lexicographic order of their paths,
  whatever the system. On a host whose collation compares letters without regard to
  case, the files \<open>B.js\<close> and \<open>a.js\<close> come out as \<open>a.js\<close>, \<open>B.js\<close>, which is not the
  lexicographic order of the code units (\<open>B\<close> is 66, \<open>a\<close> is 97).
\<close>

theorem lexicographic_counterexample:
  "\<not> lexicographically_sorted (map path (loadResources posix_host mixed_case_tree))"
  unfolding load_mixed_case by code_simp

text \<open>
  C4, amended: when \<open>localeCompare\<close> of the host is a consistent comparator, the
  resources are in ascending order of their paths under \<open>localeCompare\<close>, the collation
  of the host's locale; and for a project whose names are legal on both platforms the
  snapshot is the same with either path separator, the separators being normalised
  to \<open>/\<close>.
\<close>

theorem resources_sorted:
  assumes "consistent_comparator (localeCompare H)"
  shows "sorted_wrt (\<lambda>a b. localeCompare H a b \<le> 0) (map path (loadResources H root)) \<and>
         (legal_names (H\<lparr>platform := Posix\<rparr>) root \<and>
          legal_names (H\<lparr>platform := Win32\<rparr>) root \<longrightarrow>
            loadResources (H\<lparr>platform := Posix\<rparr>) root =
            loadResources (H\<lparr>platform := Win32\<rparr>) root)"
proof -
  let ?nb = "\<lambda>f. \<not> isBinaryLike (fileContent f)"
  let ?cmp = "\<lambda>a b. localeCompare H (relativePath a) (relativePath b)"
  let ?sorted = "array_sort ?cmp (collectFiles H [] root [])"
  from assms have total: "\<And>a b. ?cmp a b \<le> 0 \<or> ?cmp b a \<le> 0"
    and trans: "\<And>a b c. ?cmp a b \<le> 0 \<Longrightarrow> ?cmp b c \<le> 0 \<Longrightarrow> ?cmp a c \<le> 0"
    unfolding consistent_comparator_def by blast+
  have "sorted_wrt (\<lambda>a b. ?cmp a b \<le> 0) ?sorted"
    by (rule sorted_array_sort[of ?cmp, OF total trans])
  then have "sorted_wrt (\<lambda>a b. ?cmp a b \<le> 0) (filter ?nb ?sorted)"
    by (rule sorted_wrt_filter)
  then have "sorted_wrt (\<lambda>a b. localeCompare H a b \<le> 0)
      (map relativePath (filter ?nb ?sorted))"
    by (simp add: sorted_wrt_map)
  then have "sorted_wrt (\<lambda>a b. localeCompare H a b \<le> 0)
      (take k (map relativePath (filter ?nb ?sorted)))" for k
    by (rule sorted_wrt_take)
  moreover from load_loop_paths[of H ?sorted "[]" 0] obtain k where
    "map path (loadResources H root) = take k (map relativePath (filter ?nb ?sorted))"
    by (auto simp: loadResources_def Let_def)
  ultimately have "sorted_wrt (\<lambda>a b. localeCompare H a b \<le> 0)
      (map path (loadResources H root))"
    by simp
  with loadResources_platform[of H root] show ?thesis by blast
qed

theorem resources_sorted_witness:
  "consistent_comparator (localeCompare posix_host) \<and>
   map path (loadResources posix_host mixed_case_tree) = [js ''a.js'', js ''B.js''] \<and>
   localeCompare posix_host (js ''a.js'') (js ''B.js'') \<le> 0 \<and>
   loadResources (posix_host\<lparr>platform := Posix\<rparr>) mixed_case_tree =
     loadResources (posix_host\<lparr>platform := Win32\<rparr>) mixed_case_tree"
proof -
  have c: "consistent_comparator (localeCompare posix_host)"
    by (simp add: posix_host_def consistent_ascii_collate)
  have l: "legal_names (posix_host\<lparr>platform := Posix\<rparr>) mixed_case_tree \<and>
      legal_names (posix_host\<lparr>platform := Win32\<rparr>) mixed_case_tree"
    by code_simp
  from resources_sorted[OF c, of mixed_case_tree] l c show ?thesis
    by (simp add: load_mixed_case)
qed


section \<open>Writing the artifact\<close>

lemma mkdir_walk:
  "mkdirSync vol [d] es = Inr es' \<Longrightarrow> walk p es' = walk p es"
proof (induction es arbitrary: es')
  case Nil
  then show ?case by auto
next
  case (Cons e es)
  then show ?case
    by (cases e) (auto split: if_splits sum.splits)
qed

lemma write_in_walk:
  assumes "\<And>m x. vol m = vol n \<Longrightarrow> \<not> Q (p @ [m], x)"
  shows "writeFileSync vol [n] data es = Inr es' \<Longrightarrow>
         filter Q (walk p es') = filter Q (walk p es)"
proof (induction es arbitrary: es')
  case Nil
  with assms[of n] show ?case by auto
next
  case (Cons e es)
  with assms show ?case
    by (cases e) (auto split: if_splits sum.splits)
qed

lemma write_walk:
  assumes exact: "\<forall>e \<in> set es. vol (entry_name e) = vol d \<longrightarrow> entry_name e = d"
    and out: "\<And>m x. vol m = vol n \<Longrightarrow> \<not> Q ([d, m], x)"
  shows "writeFileSync vol [d, n] data es = Inr es' \<Longrightarrow>
         filter Q (walk [] es') = filter Q (walk [] es)"
  using exact
proof (induction es arbitrary: es')
  case Nil
  then show ?case by simp
next
  case (Cons e es)
  show ?case
  proof (cases e)
    case (File m c)
    with Cons show ?thesis by (auto split: if_splits sum.splits)
  next
    case (Dir m sub)
    show ?thesis
    proof (cases "vol m = vol d")
      case True
      with Cons.prems(2) Dir have md: "m = d" by simp
      from True Cons.prems(1) Dir obtain sub' where
        w: "writeFileSync vol [n] data sub = Inr sub'" and e: "es' = Dir m sub' # es"
        by (auto split: sum.splits)
      have "filter Q (walk [d] sub') = filter Q (walk [d] sub)"
        using write_in_walk[of vol n Q "[d]" data sub sub'] out w by simp
      with e Dir md show ?thesis by simp
    next
      case False
      with Cons Dir show ?thesis by (auto split: sum.splits)
    qed
  qed
qed

lemma rewrite_succeeds:
  "writeFileSync vol [n] data sub = Inr sub' \<Longrightarrow>
   \<exists>sub''. writeFileSync vol [n] data' sub' = Inr sub''"
proof (induction sub arbitrary: sub')
  case Nil
  then show ?case by auto
next
  case (Cons x sub)
  then show ?case
    by (cases x) (fastforce split: if_splits sum.splits)+
qed

lemma rerun_succeeds:
  "writeFileSync vol [d, n] data es = Inr es' \<Longrightarrow>
   mkdirSync vol [d] es' = Inr es' \<and> (\<exists>es''. writeFileSync vol [d, n] data' es' = Inr es'')"
proof (induction es arbitrary: es')
  case Nil
  then show ?case by simp
next
  case (Cons e es)
  show ?case
  proof (cases e)
    case (File m c)
    with Cons show ?thesis by (fastforce split: if_splits sum.splits)
  next
    case (Dir m sub)
    show ?thesis
    proof (cases "vol m = vol d")
      case True
      with Cons.prems Dir obtain sub' where
        w: "writeFileSync vol [n] data sub = Inr sub'" and e: "es' = Dir m sub' # es"
        by (auto split: sum.splits)
      from rewrite_succeeds[OF w] obtain sub'' where
        "writeFileSync vol [n] data' sub' = Inr sub''" by blast
      with e True show ?thesis by simp
    next
      case False
      with Cons Dir show ?thesis by (fastforce split: sum.splits)
    qed
  qed
qed

lemma replace_sep_eq:
  assumes "map (\<lambda>x. if x = c then slash else x) m = s" "slash \<notin> set s"
  shows "m = s"
proof -
  have "(if x = c then slash else x) = x" if "x \<in> set m" for x
  proof (cases "x = c")
    case True
    with that assms(1) have "slash \<in> set s" by force
    with assms(2) show ?thesis by simp
  next
    case False
    then show ?thesis by simp
  qed
  then have "map (\<lambda>x. if x = c then slash else x) m = m"
    by (intro map_idI) simp
  with assms(1) show ?thesis by simp
qed

lemma normalized_under_public:
  "normalized_path H [js ''public'', m] =
     js ''public/'' @ map (\<lambda>x. if x = sep (platform H) then slash else x) m"
proof -
  let ?f = "\<lambda>x. if x = sep (platform H) then slash else x"
  have "normalized_path H [js ''public'', m] =
      map ?f (js ''public'' @ [sep (platform H)] @ m)"
    by (simp add: normalized_path_def toPosixPath_def join_split)
  moreover have "map ?f (js ''public'') = js ''public''"
    by (cases "platform H") (simp_all add: js_def slash_def backslash_def)
  ultimately show ?thesis by (simp add: public_slash)
qed

lemma output_not_kept:
  assumes "m \<noteq> js ''index.html''"
  shows "\<not> code_keeps H ([js ''public'', m], x)"
proof -
  have "slash \<notin> set (js ''index.html'')" by (simp add: js_def slash_def)
  with assms replace_sep_eq[of "sep (platform H)" m "js ''index.html''"]
  have "map (\<lambda>x. if x = sep (platform H) then slash else x) m \<noteq> js ''index.html''"
    by blast
  moreover have "js ''public/index.html'' = js ''public/'' @ js ''index.html''"
    by (simp add: js_def)
  ultimately show ?thesis
    by (simp add: code_keeps_def normalized_under_public startsWith_def)
qed


section \<open>Running the generator twice\<close>

text \<open>
  C8, as stated: two runs on an unchanged project give the same resources, the
  artifact of the first run not being seen by the second. On a case-insensitive
  volume with a directory \<open>Public\<close> the name \<open>public\<close> resolves to it, the first run
  writes \<open>Public/project-context.json\<close>, the test of line 78 compares with \<open>public/\<close>
  case by case, and the second run has that file as one more resource.
\<close>

theorem capital_public_counterexample:
  "\<not> isl (main posix_host ascii_folding (js ''2026-01-01'') (\<lambda>_. js ''{}'') capital_public_tree) \<and>
   \<not> isl (main posix_host ascii_folding (js ''2026-01-02'') (\<lambda>_. js ''{}'')
      (fst (projr (main posix_host ascii_folding (js ''2026-01-01'') (\<lambda>_. js ''{}'')
         capital_public_tree)))) \<and>
   resources (fst (snd (projr (main posix_host ascii_folding (js ''2026-01-02'') (\<lambda>_. js ''{}'')
      (fst (projr (main posix_host ascii_folding (js ''2026-01-01'') (\<lambda>_. js ''{}'')
         capital_public_tree))))))) \<noteq>
   resources (fst (snd (projr (main posix_host ascii_folding (js ''2026-01-01'') (\<lambda>_. js ''{}'')
      capital_public_tree))))"
  by code_simp


lemma second_run_paths:
  "map path (resources (fst (snd (projr (main posix_host ascii_folding (js ''2026-01-02'') (\<lambda>_. js ''{}'')
      (fst (projr (main posix_host ascii_folding (js ''2026-01-01'') (\<lambda>_. js ''{}'')
         capital_public_tree)))))))) = [js ''a.js'', js ''Public/project-context.json'']"
  by code_simp


text \<open>
  C8, amended: on a project tree without links, when every entry of the project root
  that the volume takes for \<open>public\<close> is named \<open>public\<close> (so always on a
  case-sensitive volume, whose folding is the identity) and the volume tells
  \<open>index.html\<close> from \<open>project-context.json\<close>, a run of the generator that succeeds
  writes the resources of the tree it read, the tree it leaves gives the same
  resources, and a second run on that tree (at any time, with any serialiser) succeeds
  with the same resources: the artifact lies under \<open>public/\<close> and is never collected.
\<close>

theorem generator_idempotent:
  assumes run: "main H vol now stringify root = Inr (root', payload, line)"
    and exact: "\<forall>e \<in> set root. vol (entry_name e) = vol (js ''public'') \<longrightarrow>
                  entry_name e = js ''public''"
    and apart: "vol (js ''index.html'') \<noteq> vol (js ''project-context.json'')"
  shows "resources payload = loadResources H root \<and>
         loadResources H root' = loadResources H root \<and>
         (\<exists>root'' payload' line'.
            main H vol now' stringify' root' = Inr (root'', payload', line') \<and>
            resources payload' = resources payload)"
proof -
  from run obtain root1 where
    m: "mkdirSync vol [js ''public''] root = Inr root1" and
    w: "writeFileSync vol [js ''public'', js ''project-context.json''] (stringify payload) root1 =
          Inr root'" and
    p: "resources payload = loadResources H root"
    by (auto simp: main_def Let_def OUTPUT_FILE_def split: sum.splits)
  have exact1: "\<forall>e \<in> set root1. vol (entry_name e) = vol (js ''public'') \<longrightarrow>
      entry_name e = js ''public''"
    using m exact
  proof (induction root arbitrary: root1)
    case Nil
    then show ?case by auto
  next
    case (Cons e es)
    then show ?case
      by (cases e) (auto split: if_splits sum.splits)
  qed
  have out: "\<not> code_keeps H ([js ''public'', k], x)"
    if "vol k = vol (js ''project-context.json'')" for k x
    using that apart by (intro output_not_kept) auto
  have "filter (code_keeps H) (walk [] root') = filter (code_keeps H) (walk [] root1)"
    using write_walk[OF exact1, of "js ''project-context.json''" "code_keeps H"
        "stringify payload" root'] out w
    by blast
  also have "\<dots> = filter (code_keeps H) (walk [] root)"
    using mkdir_walk[OF m] by simp
  finally have same: "loadResources H root' = loadResources H root"
    by (simp add: loadResources_def collectFiles_walk)
  from rerun_succeeds[OF w] obtain root'' where
    m': "mkdirSync vol [js ''public''] root' = Inr root'" and
    w': "writeFileSync vol [js ''public'', js ''project-context.json'']
           (stringify' \<lparr>generatedAt = Some now', summary = buildSummary (loadResources H root'),
              resources = loadResources H root'\<rparr>) root' = Inr root''"
    by blast
  have "\<exists>root'' payload' line'.
      main H vol now' stringify' root' = Inr (root'', payload', line') \<and>
      resources payload' = resources payload"
    using m' w' p same by (simp add: main_def Let_def OUTPUT_FILE_def)
  with p same show ?thesis by simp
qed

theorem generator_idempotent_witness:
  "\<not> isl (main posix_host ascii_folding (js ''2026-01-01'') (\<lambda>_. js ''{}'') sample_tree) \<and>
   loadResources posix_host
     (fst (projr (main posix_host ascii_folding (js ''2026-01-01'') (\<lambda>_. js ''{}'') sample_tree))) =
   loadResources posix_host sample_tree \<and>
   \<not> isl (main posix_host ascii_folding (js ''2026-01-02'') (\<lambda>_. js ''{}'')
     (fst (projr (main posix_host ascii_folding (js ''2026-01-01'') (\<lambda>_. js ''{}'') sample_tree))))"
proof -
  let ?run = "main posix_host ascii_folding (js ''2026-01-01'') (\<lambda>_. js ''{}'') sample_tree"
  have ok: "\<not> isl ?run" by code_simp
  then obtain root' payload line where r: "?run = Inr (root', payload, line)"
    by (cases ?run) auto
  have exact: "\<forall>e \<in> set sample_tree. ascii_folding (entry_name e) = ascii_folding (js ''public'') \<longrightarrow>
      entry_name e = js ''public''"
    by code_simp
  have apart: "ascii_folding (js ''index.html'') \<noteq> ascii_folding (js ''project-context.json'')"
    by code_simp
  from generator_idempotent[OF r exact apart, of "js ''2026-01-02''" "\<lambda>_. js ''{}''"] ok r
  show ?thesis by auto
qed

section \<open>The shim: loading the artifact\<close>

lemma str_includes_sublist: "str_includes s q \<longleftrightarrow> sublist q s"
  by (induction s) (auto simp: sublist_Cons_right)

lemma load_initial:
  "loadProjectContext net initial_state =
     (catch_p (then_p (net 0) (\<lambda>response. if \<not> ok response
          then Rejected (Error (js ''project context not found'')) else json response))
        (\<lambda>_. Fulfilled getFallbackProjectContext),
      \<lparr>projectContextPromise = Some (catch_p (then_p (net 0) (\<lambda>response. if \<not> ok response
          then Rejected (Error (js ''project context not found'')) else json response))
        (\<lambda>_. Fulfilled getFallbackProjectContext)), fetches = 1\<rparr>)"
  by (simp add: loadProjectContext_def initial_state_def Let_def)

lemma load_memoised:
  "projectContextPromise st = Some p \<Longrightarrow> loadProjectContext net st = (p, st)"
  by (simp add: loadProjectContext_def)

lemma perform_state: "perform H net c st = snd (loadProjectContext net st)"
  by (cases c) (simp_all add: listProjectResources_def getProjectResource_def
      project_summary_def split_beta Let_def)

lemma session_states:
  assumes "projectContextPromise st = Some p"
  shows "s \<in> set (session H net cs st) \<Longrightarrow> s = st"
  using assms
  by (induction cs) (auto simp: perform_state load_memoised)

lemma session_from_initial:
  "s \<in> set (session H net cs initial_state) \<Longrightarrow> s = snd (loadProjectContext net initial_state)"
proof (cases cs)
  case Nil
  assume "s \<in> set (session H net cs initial_state)"
  with Nil show ?thesis by simp
next
  case (Cons c cs')
  assume a: "s \<in> set (session H net cs initial_state)"
  let ?st = "snd (loadProjectContext net initial_state)"
  have m: "projectContextPromise ?st = Some (fst (loadProjectContext net initial_state))"
    by (simp add: load_initial)
  from a Cons have "s = ?st \<or> s \<in> set (session H net cs' ?st)"
    by (simp add: perform_state)
  with session_states[OF m] show ?thesis by auto
qed


lemma length_session: "length (session H net cs st) = length cs"
  by (induction cs arbitrary: st) auto

lemma find_none: "(\<forall>r \<in> set xs. \<not> P r) \<Longrightarrow> find P xs = None"
  by (induction xs) auto

lemma find_first: "\<forall>x \<in> set pre. \<not> P x \<Longrightarrow> P r \<Longrightarrow> find P (pre @ r # post) = Some r"
  by (induction pre) auto

lemma trim_white_space:
  assumes "\<forall>c \<in> set s. is_white_space c"
  shows "trim s = []"
proof -
  from assms have d: "dropWhile is_white_space s = []" by simp
  show ?thesis unfolding trim_def d by simp
qed

lemma white_space_not_upper: "is_white_space c \<Longrightarrow> \<not> (0x41 \<le> c \<and> c \<le> 0x5A)"
proof
  assume ws: "is_white_space c" and up: "0x41 \<le> c \<and> c \<le> 0x5A"
  show False
  proof (cases "0x2000 \<le> c")
    case True
    with up have "(0x2000 :: jschar) \<le> 0x5A" by (meson order_trans)
    then show False by simp
  next
    case False
    with ws have "c \<in> {0x09, 0x0A, 0x0B, 0x0C, 0x0D, 0x20, 0xA0, 0x1680, 0x2028, 0x2029,
        0x202F, 0x205F, 0x3000, 0xFEFF}"
      by (simp add: is_white_space_def)
    with up show False by auto
  qed
qed

lemma posix_keeps_white_space: "case_map_keeps_white_space posix_host"
proof -
  have "ascii_lower s = s" if "\<forall>c \<in> set s. is_white_space c" for s
    using that white_space_not_upper
    by (induction s) (auto simp: ascii_lower_def)
  then show ?thesis
    by (simp add: case_map_keeps_white_space_def posix_host_def)
qed

lemma load_app: "fst (loadProjectContext app_network initial_state) = Fulfilled app_context"
  by (simp add: load_initial app_network_def)

lemma list_app_space:
  "fst (listProjectResources posix_host app_network (Some (js '' app'')) initial_state) =
   Fulfilled [\<lparr>l_uri = js ''file:///src/App.js'', l_name = js ''App.js'',
     l_description = js ''Project file src/App.js'', l_mimeType = js ''text/plain''\<rparr>]"
  apply (simp add: listProjectResources_def load_initial app_network_def app_context_def or_empty_def Let_def
      posix_host_def)
  apply (simp add: js_def ascii_lower_def trim_def is_white_space_def)
  done

lemma spec_app_space: "spec_listResources posix_host app_context (Some (js '' app'')) = []"
  apply (simp add: spec_listResources_def app_context_def posix_host_def)
  apply (simp add: js_def ascii_lower_def)
  apply code_simp
  done

lemma load_failing:
  "fst (loadProjectContext failing_network initial_state) = Fulfilled getFallbackProjectContext"
  by (simp add: load_initial failing_network_def)

text \<open>
  C5: whatever the fetch gives, \<open>loadProjectContext\<close> returns a promise that is
  fulfilled, in the first call and in every later call of a session: with exactly the
  fallback context (no timestamp, no resources, the summary
  \<open>No local project context is available.\<close>) when \<open>fetch\<close> rejects, when the response
  is not \<open>ok\<close> or when \<open>response.json()\<close> rejects, and with the parsed artifact
  otherwise.
\<close>

theorem loadContext_resolves:
  assumes "st \<in> set (initial_state # session H net cs initial_state)"
  shows "(\<exists>c. fst (loadProjectContext net st) = Fulfilled c) \<and>
    (\<forall>e. net 0 = Rejected e \<longrightarrow>
       fst (loadProjectContext net st) = Fulfilled \<lparr>generatedAt = None,
           summary = js ''No local project context is available.'', resources = []\<rparr>) \<and>
    (\<forall>response. net 0 = Fulfilled response \<and> \<not> ok response \<longrightarrow>
       fst (loadProjectContext net st) = Fulfilled \<lparr>generatedAt = None,
           summary = js ''No local project context is available.'', resources = []\<rparr>) \<and>
    (\<forall>response e. net 0 = Fulfilled response \<and> ok response \<and> json response = Rejected e \<longrightarrow>
       fst (loadProjectContext net st) = Fulfilled \<lparr>generatedAt = None,
           summary = js ''No local project context is available.'', resources = []\<rparr>) \<and>
    (\<forall>response parsed. net 0 = Fulfilled response \<and> ok response \<and>
         json response = Fulfilled parsed \<longrightarrow>
       fst (loadProjectContext net st) = Fulfilled parsed)"
proof -
  have same: "fst (loadProjectContext net st) = fst (loadProjectContext net initial_state)"
  proof (cases "st = initial_state")
    case True
    then show ?thesis by simp
  next
    case False
    with assms have "st \<in> set (session H net cs initial_state)" by simp
    from session_from_initial[OF this] show ?thesis
      by (simp add: load_initial load_memoised)
  qed
  show ?thesis
    unfolding same
    by (cases "net 0"; cases "json (case net 0 of Fulfilled r \<Rightarrow> r)")
      (auto simp: load_initial getFallbackProjectContext_def)
qed



theorem loadContext_resolves_witness:
  "fst (loadProjectContext failing_network
          (perform posix_host failing_network GetSummary initial_state)) =
     Fulfilled \<lparr>generatedAt = None,
           summary = js ''No local project context is available.'', resources = []\<rparr> \<and>
   fst (loadProjectContext app_network initial_state) = Fulfilled app_context"
proof -
  have "perform posix_host failing_network GetSummary initial_state \<in>
      set (initial_state # session posix_host failing_network [GetSummary] initial_state)"
    by simp
  from loadContext_resolves[OF this] have a:
    "fst (loadProjectContext failing_network
          (perform posix_host failing_network GetSummary initial_state)) =
     Fulfilled \<lparr>generatedAt = None,
           summary = js ''No local project context is available.'', resources = []\<rparr>"
    by (simp add: failing_network_def)
  have "initial_state \<in> set (initial_state # session posix_host app_network [] initial_state)"
    by simp
  from loadContext_resolves[OF this] have
    "fst (loadProjectContext app_network initial_state) = Fulfilled app_context"
    by (simp add: app_network_def)
  with a show ?thesis by simp
qed

section \<open>The shim: one fetch in a session\<close>

text \<open>
  C9: in a session of any calls of the four operations, started with the variable
  unset and no fetch made, every state after a call has seen exactly one fetch and
  holds in \<open>projectContextPromise\<close> the promise the first call stored; a load in such a
  state returns that same promise and leaves the state as it is.
\<close>

theorem fetch_at_most_once:
  "(\<forall>s \<in> set (session H net cs initial_state).
      fetches s = 1 \<and>
      projectContextPromise s = Some (fst (loadProjectContext net initial_state)) \<and>
      loadProjectContext net s = (fst (loadProjectContext net initial_state), s)) \<and>
   fetches initial_state = 0 \<and> projectContextPromise initial_state = None"
proof -
  have "fetches s = 1 \<and>
      projectContextPromise s = Some (fst (loadProjectContext net initial_state)) \<and>
      loadProjectContext net s = (fst (loadProjectContext net initial_state), s)"
    if "s \<in> set (session H net cs initial_state)" for s
  proof -
    from session_from_initial[OF that] have s: "s = snd (loadProjectContext net initial_state)" .
    then have "projectContextPromise s = Some (fst (loadProjectContext net initial_state))"
      and "fetches s = 1"
      by (simp_all add: load_initial)
    then show ?thesis by (simp add: load_memoised)
  qed
  then show ?thesis by (simp add: initial_state_def)
qed


theorem fetch_at_most_once_witness:
  "fetches (session posix_host app_network
      [ListResources None, GetResource (js ''file:///src/App.js''), GetSummary, LoadContext]
      initial_state ! 3) = 1 \<and>
   projectContextPromise (session posix_host app_network
      [ListResources None, GetResource (js ''file:///src/App.js''), GetSummary, LoadContext]
      initial_state ! 3) = Some (Fulfilled app_context)"
proof -
  let ?cs = "[ListResources None, GetResource (js ''file:///src/App.js''), GetSummary,
    LoadContext]"
  have "session posix_host app_network ?cs initial_state ! 3 \<in>
      set (session posix_host app_network ?cs initial_state)"
    by (rule nth_mem) (simp add: length_session)
  with fetch_at_most_once[of posix_host app_network ?cs] load_app show ?thesis
    by simp
qed

section \<open>The shim: reading one resource\<close>

text \<open>
  C6: once the context is loaded, \<open>getProjectResource\<close> is fulfilled with an envelope
  of one content item for every \<open>uri\<close>. When no resource has that \<open>uri\<close>, the item is
  the not-found payload, whose text contains the \<open>uri\<close> asked for; when one has, the
  item carries the stored \<open>text\<close> of the first resource with that \<open>uri\<close>.
\<close>

theorem getResource_total:
  assumes "fst (loadProjectContext net st) = Fulfilled ctx"
  shows "(\<exists>item. fst (getProjectResource net u st) = Fulfilled \<lparr>contents = [item]\<rparr>) \<and>
    ((\<forall>r \<in> set (resources ctx). uri r \<noteq> u) \<longrightarrow>
       fst (getProjectResource net u st) =
         Fulfilled \<lparr>contents = [\<lparr>c_uri = u, c_mimeType = js ''text/plain'',
           c_text = js ''Resource not found for uri: '' @ u\<rparr>]\<rparr> \<and>
       sublist u (js ''Resource not found for uri: '' @ u)) \<and>
    (\<forall>pre r post. resources ctx = pre @ r # post \<and> uri r = u \<and>
         (\<forall>x \<in> set pre. uri x \<noteq> u) \<longrightarrow>
       (\<exists>m. fst (getProjectResource net u st) =
         Fulfilled \<lparr>contents = [\<lparr>c_uri = u, c_mimeType = m, c_text = text r\<rparr>]\<rparr>))"
proof (intro conjI allI impI)
  show "\<exists>item. fst (getProjectResource net u st) = Fulfilled \<lparr>contents = [item]\<rparr>"
    using assms
    by (cases "find (\<lambda>item. uri item = u) (resources ctx)")
      (auto simp: getProjectResource_def split_beta)
next
  assume "\<forall>r \<in> set (resources ctx). uri r \<noteq> u"
  then have "find (\<lambda>item. uri item = u) (resources ctx) = None"
    by (intro find_none) simp
  with assms show "fst (getProjectResource net u st) =
         Fulfilled \<lparr>contents = [\<lparr>c_uri = u, c_mimeType = js ''text/plain'',
           c_text = js ''Resource not found for uri: '' @ u\<rparr>]\<rparr>"
    by (simp add: getProjectResource_def split_beta)
next
  show "sublist u (js ''Resource not found for uri: '' @ u)"
    by simp
next
  fix pre r post
  assume a: "resources ctx = pre @ r # post \<and> uri r = u \<and> (\<forall>x \<in> set pre. uri x \<noteq> u)"
  then have "find (\<lambda>item. uri item = u) (resources ctx) = Some r"
    using find_first[of pre "\<lambda>item. uri item = u" r post] by simp
  with assms a show "\<exists>m. fst (getProjectResource net u st) =
         Fulfilled \<lparr>contents = [\<lparr>c_uri = u, c_mimeType = m, c_text = text r\<rparr>]\<rparr>"
    by (simp add: getProjectResource_def split_beta)
qed


theorem getResource_total_witness:
  "fst (getProjectResource app_network (js ''file:///nope'') initial_state) =
     Fulfilled \<lparr>contents = [\<lparr>c_uri = js ''file:///nope'', c_mimeType = js ''text/plain'',
       c_text = js ''Resource not found for uri: '' @ js ''file:///nope''\<rparr>]\<rparr> \<and>
   (\<exists>m. fst (getProjectResource app_network (js ''file:///src/App.js'') initial_state) =
     Fulfilled \<lparr>contents = [\<lparr>c_uri = js ''file:///src/App.js'', c_mimeType = m,
       c_text = js ''export default 1''\<rparr>]\<rparr>)"
proof -
  have absent: "\<forall>r \<in> set (resources app_context). uri r \<noteq> js ''file:///nope''"
    by (simp add: app_context_def js_def)
  have present: "resources app_context = [] @ hd (resources app_context) # [] \<and>
      uri (hd (resources app_context)) = js ''file:///src/App.js'' \<and>
      (\<forall>x \<in> set []. uri x \<noteq> js ''file:///src/App.js'')"
    by (simp add: app_context_def)
  have stored: "text (hd (resources app_context)) = js ''export default 1''"
    by (simp add: app_context_def)
  from getResource_total[OF load_app, of "js ''file:///nope''"] absent
  have a: "fst (getProjectResource app_network (js ''file:///nope'') initial_state) =
     Fulfilled \<lparr>contents = [\<lparr>c_uri = js ''file:///nope'', c_mimeType = js ''text/plain'',
       c_text = js ''Resource not found for uri: '' @ js ''file:///nope''\<rparr>]\<rparr>"
    by blast
  from getResource_total[OF load_app, of "js ''file:///src/App.js''"] present
  have "\<exists>m. fst (getProjectResource app_network (js ''file:///src/App.js'') initial_state) =
     Fulfilled \<lparr>contents = [\<lparr>c_uri = js ''file:///src/App.js'', c_mimeType = m,
       c_text = text (hd (resources app_context))\<rparr>]\<rparr>"
    by blast
  with a stored show ?thesis by simp
qed

section \<open>The shim: listing resources\<close>

text \<open>
  C7, as stated: for a search text that is not empty the listing has exactly the
  resources whose \<open>uri\<close>, \<open>path\<close> or \<open>name\<close> contains the search text without regard to
  case. The search text \<open>" app"\<close>, with its leading space, occurs in no field of
  \<open>src/App.js\<close>, yet the resource is listed: the code trims the text first.
\<close>

theorem listResources_counterexample:
  "fst (listProjectResources posix_host app_network (Some (js '' app'')) initial_state) \<noteq>
   Fulfilled (spec_listResources posix_host app_context (Some (js '' app'')))"
  by (simp add: list_app_space spec_app_space)

text \<open>
  C7, amended: let the query be the search text (the empty string when absent) in lower
  case with the white space at both ends removed. The listing is fulfilled with the
  resources, in snapshot order and projected to \<open>{uri, name, description, mimeType}\<close>,
  for which the query is empty or occurs in the lower-cased \<open>uri\<close>, \<open>path\<close> or \<open>name\<close>;
  so an empty or absent search text lists every resource, and a query that occurs in
  no resource lists none.
\<close>

theorem listResources_filter:
  assumes "fst (loadProjectContext net st) = Fulfilled ctx"
  shows "fst (listProjectResources H net search st) =
      Fulfilled (map (\<lambda>r. \<lparr>l_uri = uri r, l_name = name r,
                   l_description = js ''Project file '' @ path r, l_mimeType = mimeType r\<rparr>)
        (filter (\<lambda>r. trim (toLowerCase H (or_empty search)) = [] \<or>
             sublist (trim (toLowerCase H (or_empty search))) (toLowerCase H (uri r)) \<or>
             sublist (trim (toLowerCase H (or_empty search))) (toLowerCase H (path r)) \<or>
             sublist (trim (toLowerCase H (or_empty search))) (toLowerCase H (name r)))
          (resources ctx))) \<and>
    (toLowerCase H [] = [] \<and> (search = None \<or> search = Some []) \<longrightarrow>
      fst (listProjectResources H net search st) =
        Fulfilled (map (\<lambda>r. \<lparr>l_uri = uri r, l_name = name r,
                   l_description = js ''Project file '' @ path r, l_mimeType = mimeType r\<rparr>)
          (resources ctx))) \<and>
    ((\<forall>r \<in> set (resources ctx).
        \<not> (trim (toLowerCase H (or_empty search)) = [] \<or>
             sublist (trim (toLowerCase H (or_empty search))) (toLowerCase H (uri r)) \<or>
             sublist (trim (toLowerCase H (or_empty search))) (toLowerCase H (path r)) \<or>
             sublist (trim (toLowerCase H (or_empty search))) (toLowerCase H (name r)))) \<longrightarrow>
      fst (listProjectResources H net search st) = Fulfilled [])"
proof -
  have main: "fst (listProjectResources H net search st) =
      Fulfilled (map (\<lambda>r. \<lparr>l_uri = uri r, l_name = name r,
                   l_description = js ''Project file '' @ path r, l_mimeType = mimeType r\<rparr>)
        (filter (\<lambda>r. trim (toLowerCase H (or_empty search)) = [] \<or>
             sublist (trim (toLowerCase H (or_empty search))) (toLowerCase H (uri r)) \<or>
             sublist (trim (toLowerCase H (or_empty search))) (toLowerCase H (path r)) \<or>
             sublist (trim (toLowerCase H (or_empty search))) (toLowerCase H (name r)))
          (resources ctx)))"
    using assms
    by (simp add: listProjectResources_def split_beta Let_def str_includes_sublist
        imp_conv_disj)
  moreover have "trim (toLowerCase H (or_empty search)) = []"
    if "toLowerCase H [] = []" "search = None \<or> search = Some []"
    using that by (auto simp: or_empty_def trim_def)
  moreover have "filter P xs = []" if "\<forall>r \<in> set xs. \<not> P r" for P and xs :: "resource list"
    using that by (induction xs) auto
  ultimately show ?thesis by auto
qed


theorem listResources_filter_witness:
  "fst (listProjectResources posix_host app_network (Some (js '' app'')) initial_state) =
     Fulfilled [\<lparr>l_uri = js ''file:///src/App.js'', l_name = js ''App.js'',
       l_description = js ''Project file src/App.js'', l_mimeType = js ''text/plain''\<rparr>] \<and>
   fst (listProjectResources posix_host app_network None initial_state) =
     Fulfilled [\<lparr>l_uri = js ''file:///src/App.js'', l_name = js ''App.js'',
       l_description = js ''Project file src/App.js'', l_mimeType = js ''text/plain''\<rparr>]"
proof -
  have low: "toLowerCase posix_host [] = []"
    by (simp add: posix_host_def ascii_lower_def)
  from listResources_filter[OF load_app, where H=posix_host and search=None] low
  have "fst (listProjectResources posix_host app_network None initial_state) =
      Fulfilled (map (\<lambda>r. \<lparr>l_uri = uri r, l_name = name r,
                   l_description = js ''Project file '' @ path r, l_mimeType = mimeType r\<rparr>)
          (resources app_context))"
    by blast
  then show ?thesis
    by (simp add: list_app_space) (simp add: app_context_def js_def)
qed

text \<open>
  C10: for a search text of white space only the listing is the one of the empty
  search text: every resource, projected, in snapshot order.
\<close>

theorem listResources_white_space:
  assumes "fst (loadProjectContext net st) = Fulfilled ctx"
    and "case_map_keeps_white_space H"
    and "\<forall>c \<in> set s. is_white_space c"
  shows "fst (listProjectResources H net (Some s) st) =
           fst (listProjectResources H net (Some []) st) \<and>
         fst (listProjectResources H net (Some s) st) =
           Fulfilled (map (\<lambda>r. \<lparr>l_uri = uri r, l_name = name r,
              l_description = js ''Project file '' @ path r, l_mimeType = mimeType r\<rparr>)
            (resources ctx))"
proof -
  from assms(2,3) have "toLowerCase H s = s" "toLowerCase H [] = []"
    by (simp_all add: case_map_keeps_white_space_def)
  with assms(3) have "trim (toLowerCase H (or_empty (Some s))) = []"
    "trim (toLowerCase H (or_empty (Some []))) = []"
    by (simp_all add: or_empty_def trim_white_space)
  with assms(1) show ?thesis
    by (simp add: listProjectResources_def split_beta Let_def)
qed


theorem listResources_white_space_witness:
  "fst (listProjectResources posix_host app_network (Some (js ''  '')) initial_state) =
     fst (listProjectResources posix_host app_network (Some []) initial_state) \<and>
   fst (listProjectResources posix_host app_network (Some (js ''  '')) initial_state) =
     Fulfilled [\<lparr>l_uri = js ''file:///src/App.js'', l_name = js ''App.js'',
       l_description = js ''Project file src/App.js'', l_mimeType = js ''text/plain''\<rparr>]"
proof -
  have ws: "\<forall>c \<in> set (js ''  ''). is_white_space c"
    by (simp add: js_def is_white_space_def)
  from listResources_white_space[OF load_app posix_keeps_white_space ws]
  have a: "fst (listProjectResources posix_host app_network (Some (js ''  '')) initial_state) =
      fst (listProjectResources posix_host app_network (Some []) initial_state)"
    and b: "fst (listProjectResources posix_host app_network (Some (js ''  '')) initial_state) =
      Fulfilled (map (\<lambda>r. \<lparr>l_uri = uri r, l_name = name r,
              l_description = js ''Project file '' @ path r, l_mimeType = mimeType r\<rparr>)
            (resources app_context))"
    by blast+
  have "map (\<lambda>r. \<lparr>l_uri = uri r, l_name = name r,
              l_description = js ''Project file '' @ path r, l_mimeType = mimeType r\<rparr>)
            (resources app_context) =
     [\<lparr>l_uri = js ''file:///src/App.js'', l_name = js ''App.js'',
       l_description = js ''Project file src/App.js'', l_mimeType = js ''text/plain''\<rparr>]"
    by (simp add: app_context_def js_def)
  with a b show ?thesis by simp
qed

end
